theory Spec2Isabelle
  imports Complex_Main
begin

section \<open>Rate limiter configuration (RateLimitedFetcher.ts)\<close>

text \<open>
  The interface \<open>RateLimiterConfig\<close> has three numeric fields; they are counts and a
  duration in milliseconds and are modelled as natural numbers.  The constructor takes an
  optional \<open>Partial<RateLimiterConfig>\<close>: each field may be absent.
\<close>

record RateLimiterConfig =
  maxRequestsPerMinute :: nat
  retryAttempts :: nat
  retryDelay :: nat

record PartialRateLimiterConfig =
  maxRequestsPerMinute_opt :: "nat option"
  retryAttempts_opt :: "nat option"
  retryDelay_opt :: "nat option"

record RateLimitedFetcher =
  requestTimestamps :: "int list"
  config :: RateLimiterConfig

text \<open>The object literal \<open>{ maxRequestsPerMinute: 15, retryAttempts: 3, retryDelay: 5000, ...config }\<close>:
  the spread copies every own property of \<open>config\<close> over the defaults written before it;
  spreading \<open>undefined\<close> copies nothing.\<close>

definition spread_config :: "RateLimiterConfig \<Rightarrow> PartialRateLimiterConfig option \<Rightarrow> RateLimiterConfig" where
  "spread_config d c =
     (case c of
        None \<Rightarrow> d
      | Some p \<Rightarrow>
          \<lparr> maxRequestsPerMinute =
              (case maxRequestsPerMinute_opt p of None \<Rightarrow> maxRequestsPerMinute d | Some v \<Rightarrow> v),
            retryAttempts =
              (case retryAttempts_opt p of None \<Rightarrow> retryAttempts d | Some v \<Rightarrow> v),
            retryDelay =
              (case retryDelay_opt p of None \<Rightarrow> retryDelay d | Some v \<Rightarrow> v) \<rparr>)"

definition new_RateLimitedFetcher :: "PartialRateLimiterConfig option \<Rightarrow> RateLimitedFetcher" where
  "new_RateLimitedFetcher c =
     \<lparr> requestTimestamps = [],
       config = spread_config
         \<lparr> maxRequestsPerMinute = 15, retryAttempts = 3, retryDelay = 5000 \<rparr> c \<rparr>"

section \<open>JavaScript values used by the date utilities\<close>

text \<open>
  Numbers that reach the date utilities are integers or \<open>NaN\<close>; a number is an
  \<open>int option\<close> with \<open>None\<close> for \<open>NaN\<close>.  Strings are lists of characters; the
  strings handled here consist of ASCII characters, one code unit each.
  \<open>Number.prototype.toString\<close> on an integer of magnitude below \<open>10^21\<close> writes its
  decimal digits, with a minus sign when negative.
\<close>

definition digit_char :: "nat \<Rightarrow> char" where
  "digit_char n = char_of (48 + n)"

fun nat_toString :: "nat \<Rightarrow> string" where
  "nat_toString n =
     (if n < 10 then [digit_char n] else nat_toString (n div 10) @ [digit_char (n mod 10)])"

declare nat_toString.simps [simp del]

definition Number_toString :: "int option \<Rightarrow> string" where
  "Number_toString v =
     (case v of
        None \<Rightarrow> ''NaN''
      | Some i \<Rightarrow> if i < 0 then CHR ''-'' # nat_toString (nat (- i)) else nat_toString (nat i))"

definition padStart :: "nat \<Rightarrow> char \<Rightarrow> string \<Rightarrow> string" where
  "padStart targetLength c s = replicate (targetLength - length s) c @ s"

text \<open>\<open>s.slice(start, end)\<close> for indices that are not negative.\<close>

definition slice :: "nat \<Rightarrow> nat \<Rightarrow> string \<Rightarrow> string" where
  "slice start end s = take (end - start) (drop start s)"

text \<open>
  \<open>parseInt(string)\<close> without a radix: leading white space is skipped, a sign is read, a
  prefix \<open>0x\<close> or \<open>0X\<close> selects radix 16, and the longest run of digits of the radix is
  the value; with no digit the result is \<open>NaN\<close>.  White space is the ASCII white space,
  and the value is exact (it is not rounded to a double).
\<close>

definition is_whitespace :: "char \<Rightarrow> bool" where
  "is_whitespace c = (c \<in> set [CHR '' '', CHR 0x09, CHR 0x0A, CHR 0x0B, CHR 0x0C, CHR 0x0D])"

definition digit_value :: "char \<Rightarrow> nat option" where
  "digit_value c =
     (let n = of_char c in
      if 48 \<le> n \<and> n \<le> 57 then Some (n - 48)
      else if 97 \<le> n \<and> n \<le> 122 then Some (n - 87)
      else if 65 \<le> n \<and> n \<le> 90 then Some (n - 55)
      else None)"

definition is_radix_digit :: "nat \<Rightarrow> char \<Rightarrow> bool" where
  "is_radix_digit radix c = (case digit_value c of None \<Rightarrow> False | Some v \<Rightarrow> v < radix)"

definition digits_value :: "nat \<Rightarrow> string \<Rightarrow> nat" where
  "digits_value radix z =
     foldl (\<lambda>acc c. radix * acc + (case digit_value c of None \<Rightarrow> 0 | Some v \<Rightarrow> v)) 0 z"

definition parseInt :: "string \<Rightarrow> int option" where
  "parseInt inputString =
     (let s = dropWhile is_whitespace inputString;
          sign = (if take 1 s = ''-'' then - 1 else 1);
          s1 = (if take 1 s = ''-'' \<or> take 1 s = ''+'' then drop 1 s else s);
          stripPrefix = (take 2 s1 = ''0x'' \<or> take 2 s1 = ''0X'');
          radix = (if stripPrefix then 16 else 10);
          s2 = (if stripPrefix then drop 2 s1 else s1);
          z = takeWhile (is_radix_digit radix) s2
      in if z = [] then None else Some (sign * int (digits_value radix z)))"

section \<open>The Date object\<close>

text \<open>
  Time values are integers, milliseconds since the epoch.  The functions below are the
  abstract operations of the language standard on time values (Day, TimeWithinDay,
  DaysInYear, DayFromYear, YearFromTime, InLeapYear, DayWithinYear, MonthFromTime,
  DateFromTime, HourFromTime, MinFromTime, SecFromTime, MakeTime, MakeDay, MakeDate,
  LocalTime, UTC, TimeClip).
\<close>

definition msPerDay :: int where "msPerDay = 86400000"
definition msPerHour :: int where "msPerHour = 3600000"
definition msPerMinute :: int where "msPerMinute = 60000"
definition msPerSecond :: int where "msPerSecond = 1000"

definition Day :: "int \<Rightarrow> int" where
  "Day t = t div msPerDay"

definition TimeWithinDay :: "int \<Rightarrow> int" where
  "TimeWithinDay t = t mod msPerDay"

definition DaysInYear :: "int \<Rightarrow> int" where
  "DaysInYear y =
     (if y mod 4 \<noteq> 0 then 365
      else if y mod 100 \<noteq> 0 then 366
      else if y mod 400 \<noteq> 0 then 365
      else 366)"

definition DayFromYear :: "int \<Rightarrow> int" where
  "DayFromYear y =
     365 * (y - 1970) + (y - 1969) div 4 - (y - 1901) div 100 + (y - 1601) div 400"

text \<open>
  YearFromTime is the largest year whose first day is not after the given day.  It is
  computed by a search downwards from an estimate that is never too small.
\<close>

function year_search_down :: "int \<Rightarrow> int \<Rightarrow> int" where
  "year_search_down d y = (if DayFromYear y \<le> d then y else year_search_down d (y - 1))"
  by pat_completeness auto
termination
  apply (relation "measure (\<lambda>(d, y). nat (DayFromYear y - d))")
   apply simp
  apply (simp add: DayFromYear_def)
  done

declare year_search_down.simps [simp del]

definition YearFromDay :: "int \<Rightarrow> int" where
  "YearFromDay d = year_search_down d (1970 + (if 0 \<le> d then d div 365 else d div 366))"

definition YearFromTime :: "int \<Rightarrow> int" where
  "YearFromTime t = YearFromDay (Day t)"

definition InLeapYear :: "int \<Rightarrow> int" where
  "InLeapYear t = (if DaysInYear (YearFromTime t) = 366 then 1 else 0)"

definition DayWithinYear :: "int \<Rightarrow> int" where
  "DayWithinYear t = Day t - DayFromYear (YearFromTime t)"

text \<open>The day within the year on which month \<open>m\<close> (0 to 11) begins.\<close>

definition MonthStart :: "int \<Rightarrow> int \<Rightarrow> int" where
  "MonthStart leap m =
     (if m = 0 then 0 else if m = 1 then 31 else if m = 2 then 59 + leap
      else if m = 3 then 90 + leap else if m = 4 then 120 + leap
      else if m = 5 then 151 + leap else if m = 6 then 181 + leap
      else if m = 7 then 212 + leap else if m = 8 then 243 + leap
      else if m = 9 then 273 + leap else if m = 10 then 304 + leap
      else 334 + leap)"

definition MonthFromTime :: "int \<Rightarrow> int" where
  "MonthFromTime t =
     (let d = DayWithinYear t; leap = InLeapYear t in
      if d < 31 then 0 else if d < 59 + leap then 1 else if d < 90 + leap then 2
      else if d < 120 + leap then 3 else if d < 151 + leap then 4
      else if d < 181 + leap then 5 else if d < 212 + leap then 6
      else if d < 243 + leap then 7 else if d < 273 + leap then 8
      else if d < 304 + leap then 9 else if d < 334 + leap then 10
      else 11)"

definition DateFromTime :: "int \<Rightarrow> int" where
  "DateFromTime t = DayWithinYear t - MonthStart (InLeapYear t) (MonthFromTime t) + 1"

definition HourFromTime :: "int \<Rightarrow> int" where
  "HourFromTime t = (t div msPerHour) mod 24"

definition MinFromTime :: "int \<Rightarrow> int" where
  "MinFromTime t = (t div msPerMinute) mod 60"

definition SecFromTime :: "int \<Rightarrow> int" where
  "SecFromTime t = (t div msPerSecond) mod 60"

definition MakeTime :: "int \<Rightarrow> int \<Rightarrow> int \<Rightarrow> int \<Rightarrow> int" where
  "MakeTime hour minute sec ms = hour * msPerHour + minute * msPerMinute + sec * msPerSecond + ms"

definition MakeDay :: "int \<Rightarrow> int \<Rightarrow> int \<Rightarrow> int" where
  "MakeDay year month dt =
     (let ym = year + month div 12; mn = month mod 12 in
      DayFromYear ym + MonthStart (if DaysInYear ym = 366 then 1 else 0) mn + dt - 1)"

definition MakeDate :: "int \<Rightarrow> int \<Rightarrow> int" where
  "MakeDate day time = day * msPerDay + time"

definition TimeClip :: "int \<Rightarrow> int option" where
  "TimeClip t = (if \<bar>t\<bar> > 8640000000000000 then None else Some t)"

text \<open>
  The time zone of the host is a parameter of every run.  It gives the offset of local
  time from UTC in milliseconds, once for a UTC time value and once for a local time
  value (where a local time is skipped or repeated by a transition, the standard takes
  the offset in force before the transition).
\<close>

record TimeZone =
  offset_at_utc :: "int \<Rightarrow> int"
  offset_at_local :: "int \<Rightarrow> int"

definition LocalTime :: "TimeZone \<Rightarrow> int \<Rightarrow> int" where
  "LocalTime tz t = t + offset_at_utc tz t"

definition UTC :: "TimeZone \<Rightarrow> int \<Rightarrow> int" where
  "UTC tz t = t - offset_at_local tz t"

text \<open>\<open>new Date(year, month, day, hours, minutes, seconds).getTime()\<close>; an argument that
  is \<open>NaN\<close> gives an invalid date, whose time value is \<open>NaN\<close>.\<close>

definition new_Date :: "TimeZone \<Rightarrow> int option \<Rightarrow> int option \<Rightarrow> int option \<Rightarrow>
    int option \<Rightarrow> int option \<Rightarrow> int option \<Rightarrow> int option" where
  "new_Date tz year month dt hours minutes seconds =
     (case year of None \<Rightarrow> None | Some y \<Rightarrow>
      case month of None \<Rightarrow> None | Some m \<Rightarrow>
      case dt of None \<Rightarrow> None | Some d \<Rightarrow>
      case hours of None \<Rightarrow> None | Some h \<Rightarrow>
      case minutes of None \<Rightarrow> None | Some mi \<Rightarrow>
      case seconds of None \<Rightarrow> None | Some s \<Rightarrow>
        (let yr = (if 0 \<le> y \<and> y \<le> 99 then 1900 + y else y);
             finalDate = MakeDate (MakeDay yr m d) (MakeTime h mi s 0)
         in TimeClip (UTC tz finalDate)))"

definition getFullYear :: "TimeZone \<Rightarrow> int \<Rightarrow> int" where
  "getFullYear tz t = YearFromTime (LocalTime tz t)"

definition getMonth :: "TimeZone \<Rightarrow> int \<Rightarrow> int" where
  "getMonth tz t = MonthFromTime (LocalTime tz t)"

definition getDate :: "TimeZone \<Rightarrow> int \<Rightarrow> int" where
  "getDate tz t = DateFromTime (LocalTime tz t)"

definition getHours :: "TimeZone \<Rightarrow> int \<Rightarrow> int" where
  "getHours tz t = HourFromTime (LocalTime tz t)"

definition getMinutes :: "TimeZone \<Rightarrow> int \<Rightarrow> int" where
  "getMinutes tz t = MinFromTime (LocalTime tz t)"

definition getSeconds :: "TimeZone \<Rightarrow> int \<Rightarrow> int" where
  "getSeconds tz t = SecFromTime (LocalTime tz t)"

text \<open>\<open>d.setFullYear(year)\<close> on a valid date with time value \<open>t\<close>: the new time value.\<close>

definition setFullYear :: "TimeZone \<Rightarrow> int \<Rightarrow> int \<Rightarrow> int option" where
  "setFullYear tz t year =
     (let lt = LocalTime tz t;
          newDate = MakeDate (MakeDay year (MonthFromTime lt) (DateFromTime lt)) (TimeWithinDay lt)
      in TimeClip (UTC tz newDate))"

section \<open>Date encodings (utils/date.ts)\<close>

definition parseCalendarDate :: "int \<Rightarrow> int option \<times> int option" where
  "parseCalendarDate v =
     (let valueStr = padStart 4 (CHR ''0'') (Number_toString (Some v));
          month = parseInt (slice 0 2 valueStr);
          day = parseInt (drop 2 valueStr)
      in (month, day))"

definition formatIdentifier :: "int \<Rightarrow> int option \<Rightarrow> int option \<Rightarrow> string" where
  "formatIdentifier year month day =
     (let formattedMonth = padStart 2 (CHR ''0'') (Number_toString month);
          formattedDay = padStart 2 (CHR ''0'') (Number_toString day)
      in Number_toString (Some year) @ formattedMonth @ formattedDay)"

text \<open>The callback of \<open>date.split('').reduce(...)\<close>, applied to a character and its index,
  and the reduction over the characters of the string.\<close>

fun split_step :: "string \<times> string \<times> string \<Rightarrow> char \<times> nat \<Rightarrow> string \<times> string \<times> string" where
  "split_step (y, m, d) (c, i) =
     (if i < 4 then (y @ [c], m, d)
      else if i < 6 then (y, m @ [c], d)
      else (y, m, d @ [c]))"

definition split_date :: "string \<Rightarrow> string \<times> string \<times> string" where
  "split_date dateStr = foldl split_step ([], [], []) (zip dateStr [0..<length dateStr])"

definition createTimestamp :: "TimeZone \<Rightarrow> string \<Rightarrow> int \<Rightarrow> int option" where
  "createTimestamp tz dateStr time =
     (let timeStr = padStart 6 (CHR ''0'') (Number_toString (Some time));
          hours = parseInt (slice 0 2 timeStr);
          minutes = parseInt (slice 2 4 timeStr);
          seconds = parseInt (drop 4 timeStr);
          (year, month, day) =
            (case split_date dateStr of (y, m, d) \<Rightarrow> (parseInt y, parseInt m, parseInt d))
      in new_Date tz year (map_option (\<lambda>m. m - 1) month) day hours minutes seconds)"

section \<open>Floating-point numbers\<close>

text \<open>
  The similarity scores and the numbers computed from them are IEEE 754 doubles.  A
  finite double is taken as the real number it denotes, and an operation of the code is
  the exact operation on the reals followed by rounding to the nearest double, ties to
  the even significand.  \<open>double_of x\<close> is that rounding: for \<open>x\<close> in the binade
  \<open>2^e \<le> |x| < 2^(e+1)\<close> the doubles are the multiples of \<open>2^(e-52)\<close>, and below
  \<open>2^(-1022)\<close> they are the multiples of \<open>2^(-1074)\<close>.  A decimal literal of the source
  denotes the double nearest to it.  The scores are the values of \<open>compareTwoStrings\<close>,
  between 0 and 1; overflow, infinities and \<open>NaN\<close> do not arise from them and are left
  out, and the two zeros are one.
\<close>

definition pow2 :: "int \<Rightarrow> real" where
  "pow2 e = (if 0 \<le> e then 2 ^ nat e else 1 / 2 ^ nat (- e))"

text \<open>The exponent of the binade of a positive number, not below the least exponent of
  a normal double: halve while the number is 2 or more, double while it is below 1.\<close>

function binade_down :: "real \<Rightarrow> int \<Rightarrow> int" where
  "binade_down a e = (if 2 \<le> a then binade_down (a / 2) (e + 1) else e)"
  by pat_completeness auto
termination
  by (relation "measure (\<lambda>(a, e). nat \<lfloor>a\<rfloor>)") (auto, linarith)

declare binade_down.simps [simp del]

function binade_up :: "real \<Rightarrow> int \<Rightarrow> int" where
  "binade_up a e = (if a < 1 \<and> - 1022 < e then binade_up (a * 2) (e - 1) else e)"
  by pat_completeness auto
termination
  by (relation "measure (\<lambda>(a, e). nat (e + 1022))") auto

declare binade_up.simps [simp del]

definition binade :: "real \<Rightarrow> int" where
  "binade a = (if 2 \<le> a then binade_down a 0 else binade_up a 0)"

definition round_half_even :: "real \<Rightarrow> int" where
  "round_half_even r =
     (let f = \<lfloor>r\<rfloor>; d = r - of_int f
      in if d < 1 / 2 then f else if 1 / 2 < d then f + 1 else if even f then f else f + 1)"

definition double_of :: "real \<Rightarrow> real" where
  "double_of x =
     (if x = 0 then 0
      else (let q = pow2 (binade \<bar>x\<bar> - 52) in of_int (round_half_even (x / q)) * q))"

text \<open>The operators \<open>-\<close>, \<open>+\<close> and \<open>/\<close> of the code on doubles.\<close>

definition fsub :: "real \<Rightarrow> real \<Rightarrow> real" where
  "fsub x y = double_of (x - y)"

definition fadd :: "real \<Rightarrow> real \<Rightarrow> real" where
  "fadd x y = double_of (x + y)"

definition fdiv :: "real \<Rightarrow> real \<Rightarrow> real" where
  "fdiv x y = double_of (x / y)"

section \<open>The rate-limited fetcher (RateLimitedFetcher.ts)\<close>

text \<open>Values that are thrown, and the part of a \<open>Response\<close> the code reads.\<close>

datatype js_error = TypeError string | Error string

record HttpResponse =
  status :: nat
  retryAfterHeader :: "string option"
  bodyText :: string

definition ok :: "HttpResponse \<Rightarrow> bool" where
  "ok r = (200 \<le> status r \<and> status r \<le> 299)"

text \<open>
  The fetcher runs in one flow of control.  Its state is the list of request timestamps;
  the clock is carried along with it.  What the outside world does during one iteration
  of the loop of \<open>fetch\<close> is an \<open>AttemptEnv\<close>: the time that passes before each of the
  three readings of \<open>Date.now()\<close>, the time by which the timer of the rate limiter
  fires late (a timer never fires early), the duration of the request, and how the
  request ends: with a thrown error or with a response.  All durations are in
  milliseconds and none is negative, so the clock never runs backwards.
\<close>

record AttemptEnv =
  lag_enter :: nat
  lag_check :: nat
  lag_timer :: nat
  lag_push :: nat
  latency :: nat
  outcome :: "js_error + HttpResponse"

type_synonym FetcherState = "int list \<times> int"

text \<open>\<open>waitForRateLimit\<close>.  When the list is empty after the purge, \<open>oldestTimestamp\<close>
  is \<open>undefined\<close>, \<open>waitTime\<close> is \<open>NaN\<close> and \<open>waitTime > 0\<close> is false.\<close>

definition waitForRateLimit :: "RateLimiterConfig \<Rightarrow> AttemptEnv \<Rightarrow> FetcherState \<Rightarrow> FetcherState" where
  "waitForRateLimit cfg e w =
     (let now1 = snd w + int (lag_enter e);
          oneMinuteAgo = now1 - 60000;
          ts = filter (\<lambda>t. t > oneMinuteAgo) (fst w)
      in if length ts \<ge> maxRequestsPerMinute cfg then
           (case ts of
              [] \<Rightarrow> (ts, now1 + int (lag_check e))
            | oldestTimestamp # _ \<Rightarrow>
                (let now2 = now1 + int (lag_check e);
                     waitTime = 60000 - (now2 - oldestTimestamp)
                 in if waitTime > 0 then (ts, now2 + waitTime + int (lag_timer e))
                    else (ts, now2)))
         else (ts, now1))"

text \<open>\<open>this.requestTimestamps.push(Date.now())\<close>\<close>

definition push_timestamp :: "AttemptEnv \<Rightarrow> FetcherState \<Rightarrow> FetcherState" where
  "push_timestamp e w = (let now3 = snd w + int (lag_push e) in (fst w @ [now3], now3))"

text \<open>One admission: the wait for the rate limit followed by the recording of the
  timestamp, as at the head of every iteration of the loop of \<open>fetch\<close>.\<close>

definition admit :: "RateLimiterConfig \<Rightarrow> AttemptEnv \<Rightarrow> FetcherState \<Rightarrow> FetcherState" where
  "admit cfg e w = push_timestamp e (waitForRateLimit cfg e w)"

definition calculateBackoff :: "RateLimiterConfig \<Rightarrow> nat \<Rightarrow> nat" where
  "calculateBackoff cfg attempt = retryDelay cfg * 2 ^ attempt"

text \<open>The time \<open>handleRateLimitResponse\<close> sleeps.  An absent or empty header is falsy; a
  timer set to \<open>NaN\<close> or to a negative delay fires at once.\<close>

definition rateLimitWait :: "RateLimiterConfig \<Rightarrow> HttpResponse \<Rightarrow> nat" where
  "rateLimitWait cfg response =
     (case retryAfterHeader response of
        None \<Rightarrow> retryDelay cfg
      | Some retryAfter \<Rightarrow>
          if retryAfter = [] then retryDelay cfg
          else (case parseInt retryAfter of None \<Rightarrow> 0 | Some n \<Rightarrow> nat (n * 1000)))"

text \<open>
  The loop of \<open>fetch\<close>, from iteration \<open>attempt\<close> on.  \<open>envs i\<close> is the environment of
  iteration \<open>i\<close>.  The value is the outcome of \<open>fetch\<close> (the response returned or the
  error thrown), the number of requests issued when it ends, and the state.
\<close>

function fetch_loop :: "RateLimiterConfig \<Rightarrow> string \<Rightarrow> (nat \<Rightarrow> AttemptEnv) \<Rightarrow> nat \<Rightarrow>
    js_error option \<Rightarrow> FetcherState \<Rightarrow> (js_error + HttpResponse) \<times> nat \<times> FetcherState" where
  "fetch_loop cfg reqUrl envs attempt lastError w =
     (if attempt < retryAttempts cfg then
        (let e = envs attempt;
             admitted = admit cfg e w;
             w1 = (fst admitted, snd admitted + int (latency e));
             caught = (\<lambda>err.
               fetch_loop cfg reqUrl envs (attempt + 1) (Some err)
                 (if int attempt < int (retryAttempts cfg) - 1
                  then (fst w1, snd w1 + int (calculateBackoff cfg attempt))
                  else w1))
         in case outcome e of
              Inl err \<Rightarrow> caught err
            | Inr response \<Rightarrow>
                if status response = 429 then
                  fetch_loop cfg reqUrl envs (attempt + 1) lastError
                    (fst w1, snd w1 + int (rateLimitWait cfg response))
                else if \<not> ok response then
                  caught (Error (''HTTP error! status: '' @ nat_toString (status response)))
                else (Inr response, attempt + 1, w1))
      else
        (Inl (case lastError of
                Some err \<Rightarrow> err
              | None \<Rightarrow> Error (''Failed to fetch '' @ reqUrl @ '' after ''
                  @ nat_toString (retryAttempts cfg) @ '' attempts'')),
         attempt, w))"
  by pat_completeness auto
termination
  by (relation "measure (\<lambda>(cfg, reqUrl, envs, attempt, lastError, w). retryAttempts cfg - attempt)") auto

declare fetch_loop.simps [simp del]

text \<open>\<open>fetch\<close> on a fetcher, at clock reading \<open>clock\<close>.\<close>

definition fetch :: "RateLimitedFetcher \<Rightarrow> string \<Rightarrow> (nat \<Rightarrow> AttemptEnv) \<Rightarrow> int \<Rightarrow>
    (js_error + HttpResponse) \<times> nat \<times> RateLimitedFetcher \<times> int" where
  "fetch f reqUrl envs clock =
     (case fetch_loop (config f) reqUrl envs 0 None (requestTimestamps f, clock) of
        (res, n, (ts, c)) \<Rightarrow> (res, n, f\<lparr> requestTimestamps := ts \<rparr>, c))"

text \<open>\<open>fetchText\<close>: the body of the response that \<open>fetch\<close> returns.\<close>

definition fetchText :: "RateLimitedFetcher \<Rightarrow> string \<Rightarrow> (nat \<Rightarrow> AttemptEnv) \<Rightarrow> int \<Rightarrow>
    (js_error + string) \<times> RateLimitedFetcher \<times> int" where
  "fetchText f reqUrl envs clock =
     (case fetch f reqUrl envs clock of
        (res, n, f1, c) \<Rightarrow> (map_sum id bodyText res, f1, c))"

section \<open>Change detection (WebScraper.ts, analyzeWebsiteHistory)\<close>

text \<open>
  A \<open>Date\<close> is its time value, milliseconds since the epoch.  Similarity scores are
  doubles; their subtraction is \<open>fsub\<close>, and the literal \<open>0.15\<close> is the double
  \<open>double_of 0.15\<close>.  Comparisons of doubles are those of the reals they denote.  The
  optional fields of \<open>Snapshot\<close> are options.
\<close>

record Snapshot =
  timestamp :: int
  url :: string
  content :: "string option"
  similarity :: "real option"

record SignificantChange =
  date :: int
  otherDate :: int
  similarityDrop :: real

record WalkState =
  significantChanges :: "SignificantChange list"
  similarSince :: "int option"
  previousSimilarity :: real
  previousDate :: int

text \<open>The body of the loop at lines 78--98, for one capture.  The test
  \<open>if (capture.similarity)\<close> is JavaScript truthiness of an optional number:
  \<open>undefined\<close> and \<open>0\<close> are both falsy.\<close>

definition walk_step :: "real \<Rightarrow> WalkState \<Rightarrow> Snapshot \<Rightarrow> WalkState" where
  "walk_step similarityThreshold st capture =
     (case similarity capture of
        None \<Rightarrow> st
      | Some s \<Rightarrow>
          if s = 0 then st
          else
            (let st1 = (if fsub (previousSimilarity st) s > double_of 0.15
                        then st\<lparr> significantChanges := significantChanges st @
                               [\<lparr> date = timestamp capture,
                                  otherDate = previousDate st,
                                  similarityDrop = fsub (previousSimilarity st) s \<rparr>] \<rparr>
                        else st);
                 st2 = (if s \<ge> similarityThreshold
                        then st1\<lparr> similarSince := Some (timestamp capture) \<rparr>
                        else st1)
             in st2\<lparr> previousSimilarity := s, previousDate := timestamp capture \<rparr>))"

text \<open>\<open>for (let i = analyzedCaptures.length - 1; i >= 0; i--)\<close>: \<open>walk_from cs n\<close> runs the
  iterations \<open>i = n - 1, ..., 0\<close>.\<close>

fun walk_from :: "real \<Rightarrow> Snapshot list \<Rightarrow> nat \<Rightarrow> WalkState \<Rightarrow> WalkState" where
  "walk_from thr cs 0 st = st"
| "walk_from thr cs (Suc i) st = walk_from thr cs i (walk_step thr st (cs ! i))"

definition walk_init :: "int \<Rightarrow> WalkState" where
  "walk_init now = \<lparr> significantChanges = [], similarSince = None,
                     previousSimilarity = 1, previousDate = now \<rparr>"

definition detect :: "int \<Rightarrow> real \<Rightarrow> Snapshot list \<Rightarrow> WalkState" where
  "detect now thr cs = walk_from thr cs (length cs) (walk_init now)"

subsection \<open>The recommendation\<close>

text \<open>\<open>shouldRecommendUpdate\<close>; \<open>now\<close> is the value of \<open>new Date()\<close> there.  A comparison
  with an invalid date is false.  The average is a double and the literal \<open>0.85\<close> is the
  double \<open>double_of 0.85\<close>.\<close>

definition twoYearsAgo :: "TimeZone \<Rightarrow> int \<Rightarrow> int option" where
  "twoYearsAgo tz now = setFullYear tz now (getFullYear tz now - 2)"

definition shouldRecommendUpdate :: "TimeZone \<Rightarrow> int \<Rightarrow> int option \<Rightarrow> real \<Rightarrow> bool" where
  "shouldRecommendUpdate tz now since averageSimilarity =
     (case since of
        None \<Rightarrow> False
      | Some s \<Rightarrow>
          (case twoYearsAgo tz now of None \<Rightarrow> False | Some limit \<Rightarrow> s < limit)
          \<and> averageSimilarity > double_of 0.85)"

subsection \<open>The analysis run\<close>

text \<open>
  A run of \<open>analyzeWebsiteHistory\<close> meets the outside world
  through the fetcher, the text cleaning, the similarity library, the clock and the time
  zone; these are the fields of \<open>AnalysisEnv\<close>.  \<open>currentPage\<close> is the outcome of
  \<open>fetcher.fetchText(this.url)\<close>, \<open>snapshotPage i\<close> the outcome of \<open>fetchText\<close> for
  the capture at index \<open>i\<close>; \<open>walkNow\<close> and \<open>recommendNow\<close> are the two readings of
  \<open>new Date()\<close>.  The list of captures is the value returned by \<open>getAllCaptures\<close>,
  which catches the failure of every year and so always returns a list.
\<close>

record AnalysisEnv =
  currentPage :: "js_error + string"
  snapshotPage :: "nat \<Rightarrow> js_error + string"
  cleanHtml :: "string \<Rightarrow> string"
  compareTwoStrings :: "string \<Rightarrow> string \<Rightarrow> real"
  walkNow :: int
  recommendNow :: int
  timeZone :: TimeZone

record AnalysisResult =
  result_url :: string
  firstCapture :: int
  lastCapture :: int
  totalCaptures :: nat
  result_similarSince :: "int option"
  similarityScore :: real
  result_significantChanges :: "SignificantChange list"
  recommendUpdate :: bool

text \<open>\<open>ContentAnalyzer.fetchContent\<close>: any error of the fetch is caught and the empty
  string is returned.\<close>

definition fetchContent :: "AnalysisEnv \<Rightarrow> js_error + string \<Rightarrow> string" where
  "fetchContent env fetched = (case fetched of Inl e \<Rightarrow> [] | Inr html \<Rightarrow> cleanHtml env html)"

text \<open>\<open>xs[i]\<close> is \<open>undefined\<close> outside the array; reading a property of \<open>undefined\<close>
  throws a TypeError.\<close>

definition array_get :: "'a list \<Rightarrow> int \<Rightarrow> 'a option" where
  "array_get xs i = (if 0 \<le> i \<and> i < int (length xs) then Some (xs ! nat i) else None)"

definition read_timestamp :: "Snapshot option \<Rightarrow> js_error + int" where
  "read_timestamp v =
     (case v of
        None \<Rightarrow> Inl (TypeError ''Cannot read properties of undefined (reading timestamp)'')
      | Some c \<Rightarrow> Inr (timestamp c))"

definition analyzeCapture :: "AnalysisEnv \<Rightarrow> string \<Rightarrow> nat \<times> Snapshot \<Rightarrow> Snapshot" where
  "analyzeCapture env currentContent ic =
     (let pageText = fetchContent env (snapshotPage env (fst ic));
          score = compareTwoStrings env currentContent pageText
      in (snd ic)\<lparr> content := Some pageText, similarity := Some score \<rparr>)"

text \<open>The average of the scores: the sum is accumulated with the addition of doubles and
  divided by the length with their division.  It is computed only after the first and the
  last capture have been read, so the list is not empty there.\<close>

definition averageSimilarity :: "Snapshot list \<Rightarrow> real" where
  "averageSimilarity analyzedCaptures =
     fdiv
       (foldl (\<lambda>sum c. fadd sum (case similarity c of None \<Rightarrow> 0 | Some s \<Rightarrow> if s = 0 then 0 else s))
          0 analyzedCaptures)
       (real (length analyzedCaptures))"

definition analyzeWebsiteHistory ::
    "AnalysisEnv \<Rightarrow> string \<Rightarrow> real \<Rightarrow> Snapshot list \<Rightarrow> js_error + AnalysisResult" where
  "analyzeWebsiteHistory env siteUrl similarityThreshold captures =
     (let currentContent = fetchContent env (currentPage env);
          analyzedCaptures = map (analyzeCapture env currentContent) (enumerate 0 captures);
          st = detect (walkNow env) similarityThreshold analyzedCaptures
      in case read_timestamp (array_get captures 0) of
           Inl e \<Rightarrow> Inl e
         | Inr first \<Rightarrow>
             (case read_timestamp (array_get captures (int (length captures) - 1)) of
                Inl e \<Rightarrow> Inl e
              | Inr final \<Rightarrow>
                  Inr \<lparr> result_url = siteUrl,
                        firstCapture = first,
                        lastCapture = final,
                        totalCaptures = length captures,
                        result_similarSince = similarSince st,
                        similarityScore = averageSimilarity analyzedCaptures,
                        result_significantChanges = significantChanges st,
                        recommendUpdate =
                          shouldRecommendUpdate (timeZone env) (recommendNow env)
                            (similarSince st) (averageSimilarity analyzedCaptures) \<rparr>))"

section \<open>Notions used to state the properties\<close>

subsection \<open>A declarative reading of the walk\<close>

text \<open>The snapshots the loop body acts on, as (timestamp, score) pairs in the order the
  loop meets them when given the list \<open>xs\<close> front to back: those whose score is truthy.\<close>

definition scored :: "Snapshot list \<Rightarrow> (int \<times> real) list" where
  "scored xs = List.map_filter
     (\<lambda>c. case similarity c of
            None \<Rightarrow> None
          | Some s \<Rightarrow> if s = 0 then None else Some (timestamp c, s)) xs"

text \<open>A snapshot can set \<open>similarSince\<close>: its score is truthy and reaches the threshold.\<close>

definition qualifies :: "real \<Rightarrow> Snapshot \<Rightarrow> bool" where
  "qualifies thr c = (case similarity c of None \<Rightarrow> False | Some s \<Rightarrow> s \<noteq> 0 \<and> s \<ge> thr)"

subsection \<open>Calendar dates and time zones\<close>

text \<open>The number of days of month \<open>m\<close> (1 to 12) of year \<open>y\<close>.\<close>

definition DaysInMonth :: "int \<Rightarrow> int \<Rightarrow> int" where
  "DaysInMonth y m =
     (if m = 2 then (if DaysInYear y = 366 then 29 else 28)
      else if m = 4 \<or> m = 6 \<or> m = 9 \<or> m = 11 then 30 else 31)"

text \<open>A zone with one offset throughout, and a zone with one transition: the offset is
  \<open>off_before\<close> until the UTC instant \<open>instant\<close> and \<open>off_after\<close> from then on.\<close>

definition fixed_offset :: "int \<Rightarrow> TimeZone" where
  "fixed_offset c = \<lparr> offset_at_utc = (\<lambda>_. c), offset_at_local = (\<lambda>_. c) \<rparr>"

definition one_transition :: "int \<Rightarrow> int \<Rightarrow> int \<Rightarrow> TimeZone" where
  "one_transition instant off_before off_after =
     \<lparr> offset_at_utc = (\<lambda>t. if t < instant then off_before else off_after),
       offset_at_local =
         (\<lambda>wt. if wt < instant + max off_before off_after then off_before else off_after) \<rparr>"

text \<open>The local time value \<open>wt\<close> is shown by the clocks of the zone at some instant (it
  is not skipped by a transition), and the offset applied to it is at most a day.\<close>

definition valid_local_time :: "TimeZone \<Rightarrow> int \<Rightarrow> bool" where
  "valid_local_time tz wt =
     (offset_at_utc tz (UTC tz wt) = offset_at_local tz wt \<and> \<bar>offset_at_local tz wt\<bar> \<le> msPerDay)"


text \<open>The \<open>k\<close> low decimal digits of \<open>n\<close>, most significant first.\<close>

fun fixed_digits :: "nat \<Rightarrow> nat \<Rightarrow> string" where
  "fixed_digits 0 n = []"
| "fixed_digits (Suc k) n = fixed_digits k (n div 10) @ [digit_char (n mod 10)]"

subsection \<open>How the iterations of a fetch end\<close>

text \<open>An iteration succeeds when its request ends with a response whose status is in the
  range 200 to 299.  Otherwise it fails; \<open>thrown\<close> is the error that a failing iteration
  leaves in \<open>lastError\<close>, which is none for a response with status 429.\<close>

definition succeeds :: "AttemptEnv \<Rightarrow> bool" where
  "succeeds e = (case outcome e of Inl err \<Rightarrow> False | Inr response \<Rightarrow> ok response)"

definition thrown :: "AttemptEnv \<Rightarrow> js_error option" where
  "thrown e =
     (case outcome e of
        Inl err \<Rightarrow> Some err
      | Inr response \<Rightarrow>
          if status response = 429 then None
          else if \<not> ok response then
            Some (Error (''HTTP error! status: '' @ nat_toString (status response)))
          else None)"

text \<open>The error left in \<open>lastError\<close> by the iterations \<open>i\<close> of the list, in order,
  starting from \<open>start\<close>.\<close>

definition last_cause :: "(nat \<Rightarrow> AttemptEnv) \<Rightarrow> js_error option \<Rightarrow> nat list \<Rightarrow> js_error option" where
  "last_cause envs start is =
     foldl (\<lambda>acc i. case thrown (envs i) of None \<Rightarrow> acc | Some err \<Rightarrow> Some err) start is"

definition exhausted_error :: "RateLimiterConfig \<Rightarrow> string \<Rightarrow> js_error option \<Rightarrow> js_error" where
  "exhausted_error cfg reqUrl cause =
     (case cause of
        Some err \<Rightarrow> err
      | None \<Rightarrow> Error (''Failed to fetch '' @ reqUrl @ '' after ''
          @ nat_toString (retryAttempts cfg) @ '' attempts''))"

subsection \<open>The timeline of a sequence of admissions\<close>

text \<open>The timestamps recorded by the admissions with environments \<open>es\<close>, made one after
  the other from state \<open>w\<close>; an admission leaves the clock at the timestamp it recorded.
  The time that passes between two admissions (the request, a sleep) is part of
  \<open>lag_enter\<close> of the later one.\<close>

fun issued :: "RateLimiterConfig \<Rightarrow> AttemptEnv list \<Rightarrow> FetcherState \<Rightarrow> int list" where
  "issued cfg [] w = []"
| "issued cfg (e # es) w = snd (admit cfg e w) # issued cfg es (admit cfg e w)"

text \<open>The window of 60000 milliseconds that ends at \<open>T\<close>: the timestamps the purge at
  time \<open>T\<close> keeps.\<close>

definition in_window :: "int \<Rightarrow> int \<Rightarrow> bool" where
  "in_window T t = (T - 60000 < t \<and> t \<le> T)"

text \<open>What holds of the timeline \<open>hist\<close> recorded so far and the state after every
  admission: no recorded timestamp is ahead of the clock, the list of the fetcher is the
  timeline without entries that are at least a minute old, and no window holds more than
  the configured number of entries.\<close>

definition rate_inv :: "RateLimiterConfig \<Rightarrow> int list \<Rightarrow> FetcherState \<Rightarrow> bool" where
  "rate_inv cfg hist w =
     ((\<forall>t\<in>set hist. t \<le> snd w)
      \<and> (\<exists>b. b \<le> snd w - 60000 \<and> fst w = filter (\<lambda>t. t > b) hist)
      \<and> (\<forall>T. length (filter (in_window T) hist) \<le> maxRequestsPerMinute cfg))"

text \<open>A sequence of calls of \<open>fetch\<close> on one fetcher, each with its URL, the environments
  of its iterations and the time that passes before it: the state after the last call.\<close>

fun fetch_all :: "RateLimiterConfig \<Rightarrow> (string \<times> (nat \<Rightarrow> AttemptEnv) \<times> nat) list \<Rightarrow>
    FetcherState \<Rightarrow> FetcherState" where
  "fetch_all cfg [] w = w"
| "fetch_all cfg ((reqUrl, envs, pause) # calls) w =
     fetch_all cfg calls
       (snd (snd (fetch_loop cfg reqUrl envs 0 None (fst w, snd w + int pause))))"

section \<open>Properties of the constructor\<close>

text \<open>
  C10.  A fetcher constructed without configuration uses 15 requests per minute, 3 attempts
  and a delay of 5000 ms; constructed with a partial configuration, each field is the
  supplied value when the field is supplied and the default otherwise.
\<close>

theorem constructor_defaults_and_overrides:
  "config (new_RateLimitedFetcher None) =
     \<lparr> maxRequestsPerMinute = 15, retryAttempts = 3, retryDelay = 5000 \<rparr>
   \<and> maxRequestsPerMinute (config (new_RateLimitedFetcher (Some p))) =
       (case maxRequestsPerMinute_opt p of None \<Rightarrow> 15 | Some v \<Rightarrow> v)
   \<and> retryAttempts (config (new_RateLimitedFetcher (Some p))) =
       (case retryAttempts_opt p of None \<Rightarrow> 3 | Some v \<Rightarrow> v)
   \<and> retryDelay (config (new_RateLimitedFetcher (Some p))) =
       (case retryDelay_opt p of None \<Rightarrow> 5000 | Some v \<Rightarrow> v)
   \<and> requestTimestamps (new_RateLimitedFetcher c) = []"
  by (simp add: new_RateLimitedFetcher_def spread_config_def split: option.splits)

section \<open>Properties of the rounding\<close>

text \<open>The exponent found is that of the binade of the number, the rounded value is a
  significand of at most 53 bits times the unit of the binade, and it is within half a
  unit of the number.\<close>

lemma pow2_pos: "0 < pow2 e"
  by (simp add: pow2_def)

lemma pow2_0: "pow2 0 = 1"
  by (simp add: pow2_def)

lemma pow2_Suc: "pow2 (e + 1) = 2 * pow2 e"
proof (cases "0 \<le> e")
  case True
  then have "nat (e + 1) = Suc (nat e)" by simp
  with True show ?thesis by (simp add: pow2_def)
next
  case False
  then have "nat (- e) = Suc (nat (- (e + 1)))" by simp
  with False show ?thesis by (simp add: pow2_def)
qed

lemma pow2_pred: "2 * pow2 (e - 1) = pow2 e"
  using pow2_Suc [of "e - 1"] by simp

lemma binade_down_ge: "e \<le> binade_down a e"
proof (induction a e rule: binade_down.induct)
  case (1 a e)
  then show ?case
    by (cases "2 \<le> a") (simp_all add: binade_down.simps [of a e])
qed

lemma binade_down_spec:
  "1 \<le> a \<Longrightarrow> pow2 (binade_down a e) \<le> a * pow2 e \<and> a * pow2 e < pow2 (binade_down a e + 1)"
proof (induction a e rule: binade_down.induct)
  case (1 a e)
  show ?case
  proof (cases "2 \<le> a")
    case True
    then have "1 \<le> a / 2" by simp
    from 1(1) [OF True this] show ?thesis
      using True by (simp add: binade_down.simps [of a e] pow2_Suc)
  next
    case False
    with 1(2) pow2_pos [of e] show ?thesis
      by (simp add: binade_down.simps [of a e] pow2_Suc)
  qed
qed

lemma binade_up_spec:
  "0 < a \<Longrightarrow> a < 2 \<Longrightarrow> - 1022 \<le> e \<Longrightarrow>
     - 1022 \<le> binade_up a e
     \<and> a * pow2 e < pow2 (binade_up a e + 1)
     \<and> (binade_up a e = - 1022 \<or> pow2 (binade_up a e) \<le> a * pow2 e)"
proof (induction a e rule: binade_up.induct)
  case (1 a e)
  show ?case
  proof (cases "a < 1 \<and> - 1022 < e")
    case True
    then have "0 < a * 2" "a * 2 < 2" "- 1022 \<le> e - 1" using 1(2) by simp_all
    from 1(1) [OF True this] show ?thesis
      using True pow2_pred [of e] by (simp add: binade_up.simps [of a e] mult.assoc)
  next
    case False
    with 1(2-4) pow2_pos [of e] show ?thesis
      by (auto simp: binade_up.simps [of a e] pow2_Suc)
  qed
qed

lemma binade_spec:
  assumes "0 < a"
  shows "- 1022 \<le> binade a" and "a < pow2 (binade a + 1)"
    and "binade a = - 1022 \<or> pow2 (binade a) \<le> a"
proof -
  have "- 1022 \<le> binade a \<and> a < pow2 (binade a + 1)
      \<and> (binade a = - 1022 \<or> pow2 (binade a) \<le> a)"
  proof (cases "2 \<le> a")
    case True
    then show ?thesis
      using binade_down_spec [of a 0] binade_down_ge [of 0 a]
      by (simp add: binade_def pow2_0)
  next
    case False
    then show ?thesis
      using binade_up_spec [of a 0] assms by (simp add: binade_def pow2_0)
  qed
  then show "- 1022 \<le> binade a" and "a < pow2 (binade a + 1)"
    and "binade a = - 1022 \<or> pow2 (binade a) \<le> a"
    by simp_all
qed

lemma round_half_even_nearest: "\<bar>of_int (round_half_even r) - r\<bar> \<le> 1 / 2"
  by (simp add: round_half_even_def Let_def)

lemma double_of_nearest:
  "\<bar>double_of x - x\<bar> \<le> pow2 (binade \<bar>x\<bar> - 52) / 2"
proof (cases "x = 0")
  case True
  then show ?thesis using pow2_pos [of "binade \<bar>x\<bar> - 52"] by (simp add: double_of_def)
next
  case False
  define q where "q = pow2 (binade \<bar>x\<bar> - 52)"
  have q: "0 < q" by (simp add: q_def pow2_pos)
  have "double_of x - x = (of_int (round_half_even (x / q)) - x / q) * q"
    using False q by (simp add: double_of_def Let_def q_def [symmetric] algebra_simps)
  then have "\<bar>double_of x - x\<bar> = \<bar>of_int (round_half_even (x / q)) - x / q\<bar> * q"
    using q by (simp add: abs_mult)
  also have "\<dots> \<le> 1 / 2 * q"
    using round_half_even_nearest [of "x / q"] q by (intro mult_right_mono) simp_all
  finally show ?thesis by (simp add: q_def)
qed

lemma pow2_add: "pow2 (e + int n) = 2 ^ n * pow2 e"
proof (induction n)
  case 0
  then show ?case by simp
next
  case (Suc n)
  have "e + int (Suc n) = e + int n + 1" by simp
  then have "pow2 (e + int (Suc n)) = pow2 (e + int n + 1)" by (rule arg_cong)
  with Suc show ?case by (simp add: pow2_Suc)
qed

lemma double_of_significand:
  "\<exists>n. double_of x = of_int n * pow2 (binade \<bar>x\<bar> - 52) \<and> \<bar>n\<bar> \<le> 2 ^ 53"
proof (cases "x = 0")
  case True
  then have "double_of x = of_int 0 * pow2 (binade \<bar>x\<bar> - 52) \<and> \<bar>0::int\<bar> \<le> 2 ^ 53"
    by (simp add: double_of_def)
  then show ?thesis by (rule exI)
next
  case False
  define q where "q = pow2 (binade \<bar>x\<bar> - 52)"
  define n where "n = round_half_even (x / q)"
  have q: "0 < q" by (simp add: q_def pow2_pos)
  have "binade \<bar>x\<bar> - 52 + int 53 = binade \<bar>x\<bar> + 1" by simp
  then have "pow2 (binade \<bar>x\<bar> + 1) = 2 ^ 53 * q"
    using pow2_add [of "binade \<bar>x\<bar> - 52" 53] by (simp only: q_def)
  with binade_spec(2) [of "\<bar>x\<bar>"] False have "\<bar>x\<bar> < 2 ^ 53 * q" by simp
  with q have "\<bar>x / q\<bar> < 2 ^ 53" by (simp add: pos_divide_less_eq)
  with round_half_even_nearest [of "x / q"] have "\<bar>real_of_int n\<bar> < 2 ^ 53 + 1"
    unfolding n_def by linarith
  then have "real_of_int \<bar>n\<bar> < real_of_int (2 ^ 53 + 1)" by simp
  then have "\<bar>n\<bar> < 2 ^ 53 + 1" by (simp only: of_int_less_iff)
  then have "\<bar>n\<bar> \<le> 2 ^ 53" by simp
  moreover have "double_of x = of_int n * q"
    using False by (simp add: double_of_def Let_def q_def n_def)
  ultimately have "double_of x = of_int n * pow2 (binade \<bar>x\<bar> - 52) \<and> \<bar>n\<bar> \<le> 2 ^ 53"
    by (simp add: q_def)
  then show ?thesis by (rule exI)
qed

section \<open>Properties of the backward walk\<close>

lemma walk_from_foldl:
  "n \<le> length cs \<Longrightarrow> walk_from thr cs n st = foldl (walk_step thr) st (rev (take n cs))"
proof (induction n arbitrary: st)
  case 0
  then show ?case by simp
next
  case (Suc n)
  then have "take (Suc n) cs = take n cs @ [cs ! n]"
    by (simp add: take_Suc_conv_app_nth)
  with Suc show ?case by simp
qed

lemma detect_foldl: "detect now thr cs = foldl (walk_step thr) (walk_init now) (rev cs)"
  by (simp add: detect_def walk_from_foldl)

lemma walk_step_skip:
  "similarity c = None \<or> similarity c = Some 0 \<Longrightarrow> walk_step thr st c = st"
  by (auto simp: walk_step_def)

lemma walk_step_previous:
  "similarity c = Some s \<Longrightarrow> s \<noteq> 0 \<Longrightarrow>
     previousSimilarity (walk_step thr st c) = s \<and> previousDate (walk_step thr st c) = timestamp c"
  by (simp add: walk_step_def Let_def)

lemma walk_step_changes:
  "similarity c = Some s \<Longrightarrow> s \<noteq> 0 \<Longrightarrow>
     significantChanges (walk_step thr st c) =
       significantChanges st @
       (if fsub (previousSimilarity st) s > double_of 0.15
        then [\<lparr> date = timestamp c, otherDate = previousDate st,
                similarityDrop = fsub (previousSimilarity st) s \<rparr>]
        else [])"
  by (simp add: walk_step_def Let_def)

lemma walk_step_since:
  "similarity c = Some s \<Longrightarrow> s \<noteq> 0 \<Longrightarrow>
     similarSince (walk_step thr st c) = (if s \<ge> thr then Some (timestamp c) else similarSince st)"
  by (simp add: walk_step_def Let_def)

lemma scored_Cons:
  "scored (c # cs) =
     (case similarity c of
        None \<Rightarrow> scored cs
      | Some s \<Rightarrow> if s = 0 then scored cs else (timestamp c, s) # scored cs)"
  by (simp add: scored_def List.map_filter_simps split: option.splits)

lemma foldl_walk_changes:
  "significantChanges (foldl (walk_step thr) st xs) =
     significantChanges st @
     [\<lparr> date = fst q, otherDate = fst p, similarityDrop = fsub (snd p) (snd q) \<rparr>.
        (p, q) \<leftarrow> zip ((previousDate st, previousSimilarity st) # scored xs) (scored xs),
        fsub (snd p) (snd q) > double_of 0.15]"
proof (induction xs arbitrary: st)
  case Nil
  then show ?case by (simp add: scored_def List.map_filter_simps)
next
  case (Cons x xs)
  show ?case
  proof (cases "similarity x = None \<or> similarity x = Some 0")
    case True
    then have "walk_step thr st x = st" by (rule walk_step_skip)
    moreover from True have "scored (x # xs) = scored xs"
      by (auto simp: scored_Cons)
    ultimately show ?thesis using Cons.IH [of st] by simp
  next
    case False
    then obtain s where s: "similarity x = Some s" "s \<noteq> 0" by auto
    then have sc: "scored (x # xs) = (timestamp x, s) # scored xs"
      by (simp add: scored_Cons)
    show ?thesis
      using Cons.IH [of "walk_step thr st x"] walk_step_previous [OF s, of thr st]
        walk_step_changes [OF s, of thr st]
      by (simp add: sc)
  qed
qed

lemma foldl_walk_previous:
  "(previousDate (foldl (walk_step thr) st xs), previousSimilarity (foldl (walk_step thr) st xs)) =
     last ((previousDate st, previousSimilarity st) # scored xs)"
proof (induction xs arbitrary: st)
  case Nil
  then show ?case by (simp add: scored_def List.map_filter_simps)
next
  case (Cons x xs)
  show ?case
  proof (cases "similarity x = None \<or> similarity x = Some 0")
    case True
    then have "walk_step thr st x = st" by (rule walk_step_skip)
    moreover from True have "scored (x # xs) = scored xs"
      by (auto simp: scored_Cons)
    ultimately show ?thesis using Cons.IH [of st] by simp
  next
    case False
    then obtain s where s: "similarity x = Some s" "s \<noteq> 0" by auto
    then have sc: "scored (x # xs) = (timestamp x, s) # scored xs"
      by (simp add: scored_Cons)
    show ?thesis
      using Cons.IH [of "walk_step thr st x"] walk_step_previous [OF s, of thr st]
      by (simp add: sc)
  qed
qed

lemma detect_since_find:
  "similarSince (detect now thr cs) = map_option timestamp (find (qualifies thr) cs)"
proof (induction cs)
  case Nil
  then show ?case by (simp add: detect_foldl walk_init_def)
next
  case (Cons c cs)
  have unfold: "detect now thr (c # cs) = walk_step thr (detect now thr cs) c"
    by (simp add: detect_foldl)
  show ?case
  proof (cases "similarity c = None \<or> similarity c = Some 0")
    case True
    then have "\<not> qualifies thr c" by (auto simp: qualifies_def)
    with True Cons show ?thesis by (simp add: unfold walk_step_skip)
  next
    case False
    then obtain s where s: "similarity c = Some s" "s \<noteq> 0" by auto
    then have "qualifies thr c \<longleftrightarrow> s \<ge> thr" by (simp add: qualifies_def)
    with Cons show ?thesis by (simp add: unfold walk_step_since [OF s])
  qed
qed

lemma find_sorted_Min:
  assumes "sorted (map f xs)" "\<exists>x\<in>set xs. P x"
  shows "map_option f (find P xs) = Some (Min (f ` {x \<in> set xs. P x}))"
  using assms
proof (induction xs)
  case Nil
  then show ?case by simp
next
  case (Cons x xs)
  show ?case
  proof (cases "P x")
    case True
    have "Min (f ` {y \<in> set (x # xs). P y}) = f x"
    proof (rule Min_eqI)
      show "finite (f ` {y \<in> set (x # xs). P y})" by simp
      show "f x \<in> f ` {y \<in> set (x # xs). P y}" using True by simp
      fix v assume "v \<in> f ` {y \<in> set (x # xs). P y}"
      then show "f x \<le> v" using Cons.prems(1) by auto
    qed
    with True show ?thesis by simp
  next
    case False
    then have "{y \<in> set (x # xs). P y} = {y \<in> set xs. P y}" by auto
    moreover from False Cons.prems have "sorted (map f xs)" "\<exists>y\<in>set xs. P y" by auto
    ultimately show ?thesis using Cons.IH False by simp
  qed
qed

text \<open>Doubles met in the examples: the literals, and the differences and the average
  that the code computes from them.\<close>

lemma double_literals:
  "double_of 0.15 = 5404319552844595 / 2 ^ 55"
  "double_of 0.85 = 7656119366529843 / 2 ^ 53"
  "double_of 0.95 = 4278419646001971 / 2 ^ 52"
  "double_of 0.78 = 3512807709348987 / 2 ^ 52"
  "double_of 0.60 = 5404319552844595 / 2 ^ 53"
  "double_of 0.90 = 8106479329266893 / 2 ^ 53"
  by code_simp+

lemma double_literals_nonzero:
  "double_of 0.85 \<noteq> 0" "double_of 0.95 \<noteq> 0" "double_of 0.78 \<noteq> 0"
  "double_of 0.60 \<noteq> 0" "double_of 0.90 \<noteq> 0"
  by code_simp+

lemma example_differences:
  "\<not> fsub 1 (double_of 0.90) > double_of 0.15"
  "fsub (double_of 0.90) (double_of 0.60) > double_of 0.15"
  "\<not> fsub (double_of 0.60) (double_of 0.78) > double_of 0.15"
  "\<not> fsub (double_of 0.78) (double_of 0.95) > double_of 0.15"
  "double_of 0.85 \<le> double_of 0.95"
  by code_simp+

lemma example_drop:
  "fsub (double_of 0.90) (double_of 0.60) = 1351079888211149 / 2 ^ 52"
  "double_of 0.30000000000000004 = 1351079888211149 / 2 ^ 52"
  "double_of 0.30 = 5404319552844595 / 2 ^ 54"
  by code_simp+

lemma boundary_differences:
  "fsub 1 (double_of 0.85) = 1351079888211149 / 2 ^ 53"
  "fsub 1 (double_of 0.85) > double_of 0.15"
  "fsub (double_of (10 / 56)) (double_of (2 / 70)) = double_of 0.15"
  "double_of (10 / 56) - double_of (2 / 70) > 0.15"
  "double_of (10 / 56) \<noteq> 0" "double_of (2 / 70) \<noteq> 0"
  by code_simp+

lemma half_difference:
  "fsub 1 (1 / 2) = 1 / 2" "fsub 1 (1 / 2) > double_of 0.15"
  by code_simp+

lemma detect_four:
  assumes "s1 \<noteq> 0" "s2 \<noteq> 0" "s3 \<noteq> 0" "s4 \<noteq> 0"
    and "\<not> fsub 1 s4 > double_of 0.15"
    and "fsub s4 s3 > double_of 0.15"
    and "\<not> fsub s3 s2 > double_of 0.15"
    and "\<not> fsub s2 s1 > double_of 0.15"
    and "thr \<le> s1"
  shows "detect now thr
      [\<lparr> timestamp = t1, url = u1, content = c1, similarity = Some s1 \<rparr>,
       \<lparr> timestamp = t2, url = u2, content = c2, similarity = Some s2 \<rparr>,
       \<lparr> timestamp = t3, url = u3, content = c3, similarity = Some s3 \<rparr>,
       \<lparr> timestamp = t4, url = u4, content = c4, similarity = Some s4 \<rparr>]
     = \<lparr> significantChanges = [\<lparr> date = t3, otherDate = t4, similarityDrop = fsub s4 s3 \<rparr>],
         similarSince = Some t1, previousSimilarity = s1, previousDate = t1 \<rparr>"
  using assms by (simp add: detect_def walk_init_def walk_step_def Let_def numeral_eq_Suc)

text \<open>
  C3 (as the code behaves).  For the ascending input (t1, 0.95), (t2, 0.78), (t3, 0.60),
  (t4, 0.90), the scores being the doubles of these literals, and threshold 0.85 the walk
  reports exactly one significant change.  It is the drop met when the walk, coming from t4
  (0.90), reaches t3 (0.60): its date is t3, its other date is t4 and its drop is the
  difference of the doubles 0.90 and 0.60, which is 1351079888211149 / 2^52, the double
  printed 0.30000000000000004 and not the double 0.30.  similarSince is t1.
\<close>

theorem detect_example:
  "significantChanges (detect now (double_of 0.85)
      [\<lparr> timestamp = t1, url = u1, content = c1, similarity = Some (double_of 0.95) \<rparr>,
       \<lparr> timestamp = t2, url = u2, content = c2, similarity = Some (double_of 0.78) \<rparr>,
       \<lparr> timestamp = t3, url = u3, content = c3, similarity = Some (double_of 0.60) \<rparr>,
       \<lparr> timestamp = t4, url = u4, content = c4, similarity = Some (double_of 0.90) \<rparr>])
     = [\<lparr> date = t3, otherDate = t4, similarityDrop = 1351079888211149 / 2 ^ 52 \<rparr>]
   \<and> similarSince (detect now (double_of 0.85)
      [\<lparr> timestamp = t1, url = u1, content = c1, similarity = Some (double_of 0.95) \<rparr>,
       \<lparr> timestamp = t2, url = u2, content = c2, similarity = Some (double_of 0.78) \<rparr>,
       \<lparr> timestamp = t3, url = u3, content = c3, similarity = Some (double_of 0.60) \<rparr>,
       \<lparr> timestamp = t4, url = u4, content = c4, similarity = Some (double_of 0.90) \<rparr>])
     = Some t1
   \<and> double_of 0.30000000000000004 = 1351079888211149 / 2 ^ 52
   \<and> double_of 0.30 \<noteq> 1351079888211149 / 2 ^ 52"
proof -
  have "detect now (double_of 0.85)
      [\<lparr> timestamp = t1, url = u1, content = c1, similarity = Some (double_of 0.95) \<rparr>,
       \<lparr> timestamp = t2, url = u2, content = c2, similarity = Some (double_of 0.78) \<rparr>,
       \<lparr> timestamp = t3, url = u3, content = c3, similarity = Some (double_of 0.60) \<rparr>,
       \<lparr> timestamp = t4, url = u4, content = c4, similarity = Some (double_of 0.90) \<rparr>]
     = \<lparr> significantChanges =
           [\<lparr> date = t3, otherDate = t4,
              similarityDrop = fsub (double_of 0.90) (double_of 0.60) \<rparr>],
         similarSince = Some t1, previousSimilarity = double_of 0.95, previousDate = t1 \<rparr>"
    by (rule detect_four) (rule double_literals_nonzero example_differences)+
  moreover have "double_of 0.30 \<noteq> 1351079888211149 / 2 ^ 52"
    by (simp only: example_drop(3)) simp
  ultimately show ?thesis
    by (simp only: example_drop(1,2)) simp
qed

text \<open>The event the claim names, between t3 and t2 with drop 0.18, is not what is reported.\<close>

theorem detect_example_counterexample:
  "significantChanges (detect 5 (double_of 0.85)
      [\<lparr> timestamp = 1, url = [], content = None, similarity = Some (double_of 0.95) \<rparr>,
       \<lparr> timestamp = 2, url = [], content = None, similarity = Some (double_of 0.78) \<rparr>,
       \<lparr> timestamp = 3, url = [], content = None, similarity = Some (double_of 0.60) \<rparr>,
       \<lparr> timestamp = 4, url = [], content = None, similarity = Some (double_of 0.90) \<rparr>])
     \<noteq> [\<lparr> date = 3, otherDate = 2, similarityDrop = double_of 0.18 \<rparr>]"
proof -
  have "detect 5 (double_of 0.85)
      [\<lparr> timestamp = 1, url = [], content = None, similarity = Some (double_of 0.95) \<rparr>,
       \<lparr> timestamp = 2, url = [], content = None, similarity = Some (double_of 0.78) \<rparr>,
       \<lparr> timestamp = 3, url = [], content = None, similarity = Some (double_of 0.60) \<rparr>,
       \<lparr> timestamp = 4, url = [], content = None, similarity = Some (double_of 0.90) \<rparr>]
     = \<lparr> significantChanges =
           [\<lparr> date = 3, otherDate = 4,
              similarityDrop = fsub (double_of 0.90) (double_of 0.60) \<rparr>],
         similarSince = Some 1, previousSimilarity = double_of 0.95, previousDate = 1 \<rparr>"
    by (rule detect_four) (rule double_literals_nonzero example_differences)+
  then show ?thesis by simp
qed

text \<open>
  C4 (as the code behaves).  The loop body acts on a snapshot only when its score is truthy:
  defined and not 0.  For such a snapshot with score s at timestamp t an event
  (date t, otherDate previousDate, drop d) is appended exactly when d > 0.15, where d is
  the difference previousSimilarity - s computed on doubles and 0.15 is the double of that
  literal; previousSimilarity and previousDate become s and t.  A snapshot whose score is
  undefined or 0 leaves the whole state as it was.  Over the whole walk, starting from
  previousSimilarity = 1 and previousDate = now, the events are those of the truthy
  snapshots, newest first, each compared with the truthy snapshot met before it.  At the
  boundary the rounding decides: the score 0.85 met after 1 gives the difference
  1351079888211149 / 2^53, above the double 0.15, and an event; the doubles of 10/56 and
  2/70 give exactly the double 0.15 and no event, although the difference of the two as
  real numbers is above 15/100.
\<close>

theorem walk_records_drops:
  "(similarity c = Some s \<and> s \<noteq> 0 \<longrightarrow>
      significantChanges (walk_step thr st c) =
        significantChanges st @
        (if fsub (previousSimilarity st) s > double_of 0.15
         then [\<lparr> date = timestamp c, otherDate = previousDate st,
                 similarityDrop = fsub (previousSimilarity st) s \<rparr>]
         else [])
      \<and> previousSimilarity (walk_step thr st c) = s
      \<and> previousDate (walk_step thr st c) = timestamp c)
   \<and> (similarity c = None \<or> similarity c = Some 0 \<longrightarrow> walk_step thr st c = st)
   \<and> significantChanges (detect now thr cs) =
       [\<lparr> date = fst q, otherDate = fst p, similarityDrop = fsub (snd p) (snd q) \<rparr>.
          (p, q) \<leftarrow> zip ((now, 1) # scored (rev cs)) (scored (rev cs)),
          fsub (snd p) (snd q) > double_of 0.15]
   \<and> (previousDate (detect now thr cs), previousSimilarity (detect now thr cs)) =
       last ((now, 1) # scored (rev cs))
   \<and> double_of 0.15 = 5404319552844595 / 2 ^ 55
   \<and> fsub 1 (double_of 0.85) = 1351079888211149 / 2 ^ 53
   \<and> fsub 1 (double_of 0.85) > double_of 0.15
   \<and> significantChanges (walk_step thr
         \<lparr> significantChanges = [], similarSince = None, previousSimilarity = 1,
            previousDate = now \<rparr>
         \<lparr> timestamp = t, url = u, content = x, similarity = Some (double_of 0.85) \<rparr>)
       = [\<lparr> date = t, otherDate = now, similarityDrop = 1351079888211149 / 2 ^ 53 \<rparr>]
   \<and> fsub (double_of (10 / 56)) (double_of (2 / 70)) = double_of 0.15
   \<and> double_of (10 / 56) - double_of (2 / 70) > 0.15
   \<and> significantChanges (walk_step thr
         \<lparr> significantChanges = [], similarSince = None,
            previousSimilarity = double_of (10 / 56), previousDate = now \<rparr>
         \<lparr> timestamp = t, url = u, content = x, similarity = Some (double_of (2 / 70)) \<rparr>)
       = []"
proof -
  have "significantChanges (detect now thr cs) =
       [\<lparr> date = fst q, otherDate = fst p, similarityDrop = fsub (snd p) (snd q) \<rparr>.
          (p, q) \<leftarrow> zip ((now, 1) # scored (rev cs)) (scored (rev cs)),
          fsub (snd p) (snd q) > double_of 0.15]"
    using foldl_walk_changes [of thr "walk_init now" "rev cs"]
    by (simp add: detect_foldl walk_init_def)
  moreover have "(previousDate (detect now thr cs), previousSimilarity (detect now thr cs)) =
       last ((now, 1) # scored (rev cs))"
    using foldl_walk_previous [of thr "walk_init now" "rev cs"]
    by (simp only: detect_foldl) (simp add: walk_init_def)
  moreover have "significantChanges (walk_step thr
         \<lparr> significantChanges = [], similarSince = None, previousSimilarity = 1,
            previousDate = now \<rparr>
         \<lparr> timestamp = t, url = u, content = x, similarity = Some (double_of 0.85) \<rparr>)
       = [\<lparr> date = t, otherDate = now, similarityDrop = 1351079888211149 / 2 ^ 53 \<rparr>]"
    using walk_step_changes [of
        "\<lparr> timestamp = t, url = u, content = x, similarity = Some (double_of 0.85) \<rparr>"
        "double_of 0.85" thr
        "\<lparr> significantChanges = [], similarSince = None, previousSimilarity = 1,
           previousDate = now \<rparr>"]
      double_literals_nonzero(1) boundary_differences(1,2)
    by simp
  moreover have "significantChanges (walk_step thr
         \<lparr> significantChanges = [], similarSince = None,
            previousSimilarity = double_of (10 / 56), previousDate = now \<rparr>
         \<lparr> timestamp = t, url = u, content = x, similarity = Some (double_of (2 / 70)) \<rparr>)
       = []"
    using walk_step_changes [of
        "\<lparr> timestamp = t, url = u, content = x, similarity = Some (double_of (2 / 70)) \<rparr>"
        "double_of (2 / 70)" thr
        "\<lparr> significantChanges = [], similarSince = None,
           previousSimilarity = double_of (10 / 56), previousDate = now \<rparr>"]
      boundary_differences(3,6)
    by simp
  ultimately show ?thesis
    using walk_step_changes [of c s thr st] walk_step_previous [of c s thr st]
      walk_step_skip [of c thr st] double_literals(1) boundary_differences(1,2,3,4)
    by blast
qed

theorem walk_records_drops_witness:
  "similarity \<lparr> timestamp = 1000, url = [], content = None, similarity = Some (1 / 2) \<rparr>
     = Some (1 / 2) \<and> (1 / 2 :: real) \<noteq> 0
   \<and> significantChanges (walk_step (double_of 0.85)
      \<lparr> significantChanges = [], similarSince = None, previousSimilarity = 1, previousDate = 2000 \<rparr>
      \<lparr> timestamp = 1000, url = [], content = None, similarity = Some (1 / 2) \<rparr>)
     = [\<lparr> date = 1000, otherDate = 2000, similarityDrop = 1 / 2 \<rparr>]
   \<and> walk_step (double_of 0.85)
      \<lparr> significantChanges = [], similarSince = None, previousSimilarity = 1, previousDate = 2000 \<rparr>
      \<lparr> timestamp = 1000, url = [], content = None, similarity = None \<rparr>
     = \<lparr> significantChanges = [], similarSince = None, previousSimilarity = 1, previousDate = 2000 \<rparr>"
  using walk_records_drops [of "\<lparr> timestamp = 1000, url = [], content = None, similarity = Some (1 / 2) \<rparr>"
      "1 / 2" "double_of 0.85"
      "\<lparr> significantChanges = [], similarSince = None, previousSimilarity = 1, previousDate = 2000 \<rparr>"
      0 "[]" 0 "[]" None]
    walk_records_drops [of "\<lparr> timestamp = 1000, url = [], content = None, similarity = None \<rparr>"
      0 "double_of 0.85"
      "\<lparr> significantChanges = [], similarSince = None, previousSimilarity = 1, previousDate = 2000 \<rparr>"
      0 "[]" 0 "[]" None]
    half_difference
  by simp

text \<open>A snapshot with score 0 is skipped although 1 - 0 > 0.15: no event, no update.\<close>

theorem walk_zero_score_counterexample:
  "fsub 1 0 > double_of 0.15
   \<and> significantChanges (detect 2000 (double_of 0.85)
        [\<lparr> timestamp = 1000, url = [], content = None, similarity = Some 0 \<rparr>]) = []
   \<and> previousSimilarity (detect 2000 (double_of 0.85)
        [\<lparr> timestamp = 1000, url = [], content = None, similarity = Some 0 \<rparr>]) = 1
   \<and> previousDate (detect 2000 (double_of 0.85)
        [\<lparr> timestamp = 1000, url = [], content = None, similarity = Some 0 \<rparr>]) = 2000"
proof -
  have "fsub 1 0 > double_of 0.15" by code_simp
  then show ?thesis by (simp add: detect_def walk_init_def walk_step_def)
qed

text \<open>
  C5 (as the code behaves).  After the walk similarSince is the timestamp of the first
  snapshot of the list whose score is truthy and reaches the threshold, and none when there
  is no such snapshot; on a list ascending by time this is the oldest such timestamp.  For a
  positive threshold a score that reaches the threshold is truthy, so there the condition is
  only that the score reaches the threshold.
\<close>

theorem similarSince_oldest_qualifying:
  "similarSince (detect now thr cs) = map_option timestamp (find (qualifies thr) cs)
   \<and> (sorted (map timestamp cs) \<longrightarrow>
        similarSince (detect now thr cs) =
          (if \<exists>c\<in>set cs. qualifies thr c
           then Some (Min (timestamp ` {c \<in> set cs. qualifies thr c}))
           else None))
   \<and> (0 < thr \<longrightarrow>
        qualifies thr c = (case similarity c of None \<Rightarrow> False | Some s \<Rightarrow> s \<ge> thr))"
proof (intro conjI impI)
  show "similarSince (detect now thr cs) = map_option timestamp (find (qualifies thr) cs)"
    by (rule detect_since_find)
next
  assume srt: "sorted (map timestamp cs)"
  show "similarSince (detect now thr cs) =
          (if \<exists>c\<in>set cs. qualifies thr c
           then Some (Min (timestamp ` {c \<in> set cs. qualifies thr c}))
           else None)"
  proof (cases "\<exists>c\<in>set cs. qualifies thr c")
    case True
    then show ?thesis
      using find_sorted_Min [OF srt True] by (simp add: detect_since_find)
  next
    case False
    then have "find (qualifies thr) cs = None" by (simp add: find_None_iff)
    with False show ?thesis by (simp add: detect_since_find)
  qed
next
  assume "0 < thr"
  then show "qualifies thr c = (case similarity c of None \<Rightarrow> False | Some s \<Rightarrow> s \<ge> thr)"
    by (auto simp: qualifies_def split: option.splits)
qed

theorem similarSince_oldest_qualifying_witness:
  "sorted (map timestamp
      [\<lparr> timestamp = 1, url = [], content = None, similarity = Some 0.5 \<rparr>,
       \<lparr> timestamp = 2, url = [], content = None, similarity = Some 0.9 \<rparr>,
       \<lparr> timestamp = 3, url = [], content = None, similarity = Some 0.95 \<rparr>])
   \<and> (0::real) < 0.85
   \<and> similarSince (detect 5 0.85
      [\<lparr> timestamp = 1, url = [], content = None, similarity = Some 0.5 \<rparr>,
       \<lparr> timestamp = 2, url = [], content = None, similarity = Some 0.9 \<rparr>,
       \<lparr> timestamp = 3, url = [], content = None, similarity = Some 0.95 \<rparr>]) = Some 2"
  using similarSince_oldest_qualifying [of 5 "0.85"
      "[\<lparr> timestamp = 1, url = [], content = None, similarity = Some 0.5 \<rparr>,
       \<lparr> timestamp = 2, url = [], content = None, similarity = Some 0.9 \<rparr>,
       \<lparr> timestamp = 3, url = [], content = None, similarity = Some 0.95 \<rparr>]"]
  by (simp add: qualifies_def)

text \<open>With threshold 0 a snapshot with score 0 reaches the threshold, and is skipped.\<close>

theorem similarSince_zero_score_counterexample:
  "(0::real) \<ge> 0
   \<and> similarSince (detect 2000 0
        [\<lparr> timestamp = 1000, url = [], content = None, similarity = Some 0 \<rparr>]) = None"
  by (simp add: detect_def walk_init_def walk_step_def)

section \<open>Properties of the retry loop\<close>

lemma fetch_loop_done:
  "\<not> attempt < retryAttempts cfg \<Longrightarrow>
     fetch_loop cfg u envs attempt le w = (Inl (exhausted_error cfg u le), attempt, w)"
  by (simp add: fetch_loop.simps [of cfg u envs attempt le w] exhausted_error_def)

lemma fetch_loop_success:
  "attempt < retryAttempts cfg \<Longrightarrow> outcome (envs attempt) = Inr r \<Longrightarrow> ok r \<Longrightarrow>
     fst (fetch_loop cfg u envs attempt le w) = Inr r
     \<and> fst (snd (fetch_loop cfg u envs attempt le w)) = attempt + 1"
  by (simp add: fetch_loop.simps [of cfg u envs attempt le w] Let_def ok_def)

lemma fetch_loop_failure:
  "attempt < retryAttempts cfg \<Longrightarrow> \<not> succeeds (envs attempt) \<Longrightarrow>
     \<exists>w'. fetch_loop cfg u envs attempt le w =
       fetch_loop cfg u envs (attempt + 1)
         (case thrown (envs attempt) of None \<Rightarrow> le | Some err \<Rightarrow> Some err) w'"
  by (auto simp add: fetch_loop.simps [of cfg u envs attempt le w] Let_def succeeds_def thrown_def
      split: sum.splits)

lemma fetch_loop_fails_then_succeeds:
  assumes "k < retryAttempts cfg" "outcome (envs k) = Inr r" "ok r"
  shows "a \<le> k \<Longrightarrow> (\<forall>i. a \<le> i \<and> i < k \<longrightarrow> \<not> succeeds (envs i)) \<Longrightarrow>
     fst (fetch_loop cfg u envs a le w) = Inr r
     \<and> fst (snd (fetch_loop cfg u envs a le w)) = k + 1"
proof (induction "k - a" arbitrary: a le w)
  case 0
  then have "a = k" by simp
  with assms show ?case using fetch_loop_success [of k cfg envs r u le w] by simp
next
  case (Suc n)
  then have lt: "a < k" by simp
  with assms(1) have "a < retryAttempts cfg" by simp
  moreover from Suc.prems lt have "\<not> succeeds (envs a)" by simp
  ultimately obtain w' where step: "fetch_loop cfg u envs a le w =
       fetch_loop cfg u envs (a + 1)
         (case thrown (envs a) of None \<Rightarrow> le | Some err \<Rightarrow> Some err) w'"
    using fetch_loop_failure by blast
  have "n = k - (a + 1)" using Suc(2) by simp
  moreover have "a + 1 \<le> k" using lt by simp
  moreover have "\<forall>i. a + 1 \<le> i \<and> i < k \<longrightarrow> \<not> succeeds (envs i)" using Suc.prems by simp
  ultimately show ?case unfolding step by (rule Suc(1))
qed

lemma fetch_loop_always_fails:
  "a \<le> retryAttempts cfg \<Longrightarrow> (\<forall>i. a \<le> i \<and> i < retryAttempts cfg \<longrightarrow> \<not> succeeds (envs i)) \<Longrightarrow>
     fst (fetch_loop cfg u envs a le w) =
       Inl (exhausted_error cfg u (last_cause envs le [a..<retryAttempts cfg]))
     \<and> fst (snd (fetch_loop cfg u envs a le w)) = retryAttempts cfg"
proof (induction "retryAttempts cfg - a" arbitrary: a le w)
  case 0
  then have "a = retryAttempts cfg" by simp
  then show ?case by (simp add: fetch_loop_done last_cause_def)
next
  case (Suc n)
  then have lt: "a < retryAttempts cfg" by simp
  moreover from Suc.prems lt have "\<not> succeeds (envs a)" by simp
  ultimately obtain w' where step: "fetch_loop cfg u envs a le w =
       fetch_loop cfg u envs (a + 1)
         (case thrown (envs a) of None \<Rightarrow> le | Some err \<Rightarrow> Some err) w'"
    using fetch_loop_failure by blast
  have "n = retryAttempts cfg - (a + 1)" using Suc(2) by simp
  moreover have "a + 1 \<le> retryAttempts cfg" using lt by simp
  moreover have "\<forall>i. a + 1 \<le> i \<and> i < retryAttempts cfg \<longrightarrow> \<not> succeeds (envs i)"
    using Suc.prems by simp
  ultimately have "fst (fetch_loop cfg u envs (a + 1)
         (case thrown (envs a) of None \<Rightarrow> le | Some err \<Rightarrow> Some err) w') =
       Inl (exhausted_error cfg u (last_cause envs
         (case thrown (envs a) of None \<Rightarrow> le | Some err \<Rightarrow> Some err) [a + 1..<retryAttempts cfg]))
     \<and> fst (snd (fetch_loop cfg u envs (a + 1)
         (case thrown (envs a) of None \<Rightarrow> le | Some err \<Rightarrow> Some err) w')) = retryAttempts cfg"
    by (rule Suc(1))
  moreover have "last_cause envs le [a..<retryAttempts cfg] =
      last_cause envs (case thrown (envs a) of None \<Rightarrow> le | Some err \<Rightarrow> Some err)
        [a + 1..<retryAttempts cfg]"
    using lt by (simp add: last_cause_def upt_conv_Cons)
  ultimately show ?case by (simp add: step)
qed

lemma fetch_loop_attempts_bounded:
  "fst (snd (fetch_loop cfg u envs a le w)) \<le> max a (retryAttempts cfg)"
proof (induction "retryAttempts cfg - a" arbitrary: a le w)
  case 0
  then show ?case by (simp add: fetch_loop_done)
next
  case (Suc n)
  then have lt: "a < retryAttempts cfg" by simp
  show ?case
  proof (cases "succeeds (envs a)")
    case True
    then obtain r where "outcome (envs a) = Inr r" "ok r"
      by (auto simp: succeeds_def split: sum.splits)
    with lt show ?thesis using fetch_loop_success [of a cfg envs r u le w] by simp
  next
    case False
    with lt obtain w' where step: "fetch_loop cfg u envs a le w =
       fetch_loop cfg u envs (a + 1)
         (case thrown (envs a) of None \<Rightarrow> le | Some err \<Rightarrow> Some err) w'"
      using fetch_loop_failure by blast
    have "n = retryAttempts cfg - (a + 1)" using Suc(2) by simp
    then have "fst (snd (fetch_loop cfg u envs (a + 1)
         (case thrown (envs a) of None \<Rightarrow> le | Some err \<Rightarrow> Some err) w'))
        \<le> max (a + 1) (retryAttempts cfg)"
      by (rule Suc(1))
    with lt show ?thesis by (simp add: step)
  qed
qed

lemma fetch_fst: "fst (fetch f u envs clock) =
    fst (fetch_loop (config f) u envs 0 None (requestTimestamps f, clock))"
  by (simp add: fetch_def split: prod.splits)

lemma fetch_attempts: "fst (snd (fetch f u envs clock)) =
    fst (snd (fetch_loop (config f) u envs 0 None (requestTimestamps f, clock)))"
  by (simp add: fetch_def split: prod.splits)

text \<open>
  C8.  When the first \<open>k\<close> iterations fail (a thrown error, a status outside 200 to 299,
  or a status 429), \<open>k\<close> is less than \<open>retryAttempts\<close> and iteration \<open>k\<close> ends with a
  successful response, \<open>fetch\<close> returns that response and has then issued \<open>k + 1\<close>
  requests.  When every iteration fails, \<open>fetch\<close> issues exactly \<open>retryAttempts\<close>
  requests and throws the error captured last, or, when none was captured (every
  response had status 429, or there was no attempt), the error it makes up itself.  It never
  issues more than \<open>retryAttempts\<close> requests.
\<close>

theorem fetch_retry_outcomes:
  "(k < retryAttempts (config f) \<and> (\<forall>i<k. \<not> succeeds (envs i))
      \<and> outcome (envs k) = Inr response \<and> ok response \<longrightarrow>
      fst (fetch f u envs clock) = Inr response \<and> fst (snd (fetch f u envs clock)) = k + 1)
   \<and> ((\<forall>i<retryAttempts (config f). \<not> succeeds (envs i)) \<longrightarrow>
      fst (fetch f u envs clock) =
        Inl (exhausted_error (config f) u (last_cause envs None [0..<retryAttempts (config f)]))
      \<and> fst (snd (fetch f u envs clock)) = retryAttempts (config f))
   \<and> fst (snd (fetch f u envs clock)) \<le> retryAttempts (config f)"
proof (intro conjI impI)
  assume h: "k < retryAttempts (config f) \<and> (\<forall>i<k. \<not> succeeds (envs i))
      \<and> outcome (envs k) = Inr response \<and> ok response"
  then have "fst (fetch_loop (config f) u envs 0 None (requestTimestamps f, clock)) = Inr response
     \<and> fst (snd (fetch_loop (config f) u envs 0 None (requestTimestamps f, clock))) = k + 1"
    by (intro fetch_loop_fails_then_succeeds) simp_all
  then show "fst (fetch f u envs clock) = Inr response" "fst (snd (fetch f u envs clock)) = k + 1"
    by (simp_all add: fetch_fst fetch_attempts)
next
  assume h: "\<forall>i<retryAttempts (config f). \<not> succeeds (envs i)"
  then have "fst (fetch_loop (config f) u envs 0 None (requestTimestamps f, clock)) =
       Inl (exhausted_error (config f) u (last_cause envs None [0..<retryAttempts (config f)]))
     \<and> fst (snd (fetch_loop (config f) u envs 0 None (requestTimestamps f, clock))) =
       retryAttempts (config f)"
    by (intro fetch_loop_always_fails) simp_all
  then show "fst (fetch f u envs clock) =
        Inl (exhausted_error (config f) u (last_cause envs None [0..<retryAttempts (config f)]))"
    "fst (snd (fetch f u envs clock)) = retryAttempts (config f)"
    by (simp_all add: fetch_fst fetch_attempts)
next
  show "fst (snd (fetch f u envs clock)) \<le> retryAttempts (config f)"
    using fetch_loop_attempts_bounded [of "config f" u envs 0 None "(requestTimestamps f, clock)"]
    by (simp add: fetch_attempts)
qed

theorem fetch_retry_outcomes_witness:
  "fst (fetch (new_RateLimitedFetcher None) ''https://example.com''
      (\<lambda>i. \<lparr> lag_enter = 0, lag_check = 0, lag_timer = 0, lag_push = 0, latency = 100,
              outcome = (if i = 0 then Inl (TypeError ''fetch failed'')
                         else if i = 1 then Inr \<lparr> status = 429, retryAfterHeader = Some ''2'', bodyText = [] \<rparr>
                         else Inr \<lparr> status = 200, retryAfterHeader = None, bodyText = ''page'' \<rparr>) \<rparr>) 0)
     = Inr \<lparr> status = 200, retryAfterHeader = None, bodyText = ''page'' \<rparr>
   \<and> fst (snd (fetch (new_RateLimitedFetcher None) ''https://example.com''
      (\<lambda>i. \<lparr> lag_enter = 0, lag_check = 0, lag_timer = 0, lag_push = 0, latency = 100,
              outcome = (if i = 0 then Inl (TypeError ''fetch failed'')
                         else if i = 1 then Inr \<lparr> status = 429, retryAfterHeader = Some ''2'', bodyText = [] \<rparr>
                         else Inr \<lparr> status = 200, retryAfterHeader = None, bodyText = ''page'' \<rparr>) \<rparr>) 0))
     = 2 + 1"
proof -
  let ?envs = "\<lambda>i::nat. \<lparr> lag_enter = 0, lag_check = 0, lag_timer = 0, lag_push = 0, latency = 100,
              outcome = (if i = 0 then Inl (TypeError ''fetch failed'')
                         else if i = 1 then Inr \<lparr> status = 429, retryAfterHeader = Some ''2'', bodyText = [] \<rparr>
                         else Inr \<lparr> status = 200, retryAfterHeader = None, bodyText = ''page'' \<rparr>) \<rparr>"
  let ?r = "\<lparr> status = 200, retryAfterHeader = None, bodyText = ''page'' \<rparr>"
  have a: "2 < retryAttempts (config (new_RateLimitedFetcher None))"
    by (simp add: new_RateLimitedFetcher_def spread_config_def)
  have b: "\<forall>i<2. \<not> succeeds (?envs i)"
    by (auto simp: succeeds_def ok_def)
  have c: "outcome (?envs 2) = Inr ?r" by simp
  have d: "ok ?r" by (simp add: ok_def)
  from fetch_retry_outcomes [of 2 "new_RateLimitedFetcher None" ?envs ?r "''https://example.com''" 0]
    a b c d
  show ?thesis by blast
qed

section \<open>Properties of the rate limiter\<close>

lemma length_filter_le_weaker:
  "(\<And>x. x \<in> set xs \<Longrightarrow> P x \<Longrightarrow> Q x) \<Longrightarrow> length (filter P xs) \<le> length (filter Q xs)"
proof (induction xs)
  case Nil
  show ?case by simp
next
  case (Cons x xs)
  then have "length (filter P xs) \<le> length (filter Q xs)" by simp
  moreover have "P x \<Longrightarrow> Q x" using Cons.prems by simp
  ultimately show ?case by auto
qed

lemma waitForRateLimit_list:
  "fst (waitForRateLimit cfg e w) = filter (\<lambda>t. t > snd w + int (lag_enter e) - 60000) (fst w)"
  by (simp add: waitForRateLimit_def Let_def split: list.splits)

lemma waitForRateLimit_clock:
  "snd w + int (lag_enter e) \<le> snd (waitForRateLimit cfg e w)"
  by (simp add: waitForRateLimit_def Let_def split: list.splits)

lemma waitForRateLimit_full:
  assumes "filter (\<lambda>t. t > snd w + int (lag_enter e) - 60000) (fst w) = oldest # rest"
    and "maxRequestsPerMinute cfg \<le> Suc (length rest)"
  shows "oldest + 60000 \<le> snd (waitForRateLimit cfg e w)"
  using assms by (simp add: waitForRateLimit_def Let_def)

lemma waitForRateLimit_suspension:
  assumes "filter (\<lambda>t. t > snd w + int (lag_enter e) - 60000) (fst w) = oldest # rest"
    and "maxRequestsPerMinute cfg \<le> Suc (length rest)"
  shows "snd (waitForRateLimit cfg e w) =
    (let now2 = snd w + int (lag_enter e) + int (lag_check e);
         waitTime = 60000 - (now2 - oldest)
     in if waitTime > 0 then now2 + waitTime + int (lag_timer e) else now2)"
  using assms by (simp add: waitForRateLimit_def Let_def)

lemma admit_list: "fst (admit cfg e w) = fst (waitForRateLimit cfg e w) @ [snd (admit cfg e w)]"
  by (simp add: admit_def push_timestamp_def Let_def)

lemma admit_clock: "snd (admit cfg e w) = snd (waitForRateLimit cfg e w) + int (lag_push e)"
  by (simp add: admit_def push_timestamp_def Let_def)

lemma rate_inv_admit:
  assumes inv: "rate_inv cfg hist w" and pos: "0 < maxRequestsPerMinute cfg"
  shows "rate_inv cfg (hist @ [snd (admit cfg e w)]) (admit cfg e w)"
proof -
  define c where "c = snd w"
  define now1 where "now1 = c + int (lag_enter e)"
  define ts where "ts = filter (\<lambda>t. t > now1 - 60000) (fst w)"
  define c1 where "c1 = snd (waitForRateLimit cfg e w)"
  define now3 where "now3 = snd (admit cfg e w)"
  from inv have A: "\<forall>t\<in>set hist. t \<le> c"
    and C: "\<And>T. length (filter (in_window T) hist) \<le> maxRequestsPerMinute cfg"
    by (simp_all add: rate_inv_def c_def)
  from inv obtain b where b: "b \<le> c - 60000" "fst w = filter (\<lambda>t. t > b) hist"
    by (auto simp: rate_inv_def c_def)
  have order: "c \<le> now1" "now1 \<le> c1" "c1 \<le> now3"
    using waitForRateLimit_clock [of w e cfg]
    by (simp_all add: now1_def c1_def now3_def c_def admit_clock)
  have ts_hist: "ts = filter (\<lambda>t. t > now1 - 60000) hist"
    unfolding ts_def b(2) using b(1) order(1)
    by (auto intro!: filter_cong)
  have ts_window: "ts = filter (in_window now1) hist"
    unfolding ts_hist using A order(1) by (auto simp: in_window_def intro!: filter_cong)
  have ts_len: "length ts \<le> maxRequestsPerMinute cfg"
    unfolding ts_window by (rule C)
  have list: "fst (admit cfg e w) = ts @ [now3]"
    by (simp add: admit_list waitForRateLimit_list ts_def now1_def c_def now3_def)
  have K: "length (filter (\<lambda>t. t > now3 - 60000) hist) < maxRequestsPerMinute cfg"
  proof (cases "length ts < maxRequestsPerMinute cfg")
    case True
    have "length (filter (\<lambda>t. t > now3 - 60000) hist) \<le> length (filter (\<lambda>t. t > now1 - 60000) hist)"
      using order by (intro length_filter_le_weaker) simp
    with True show ?thesis by (simp add: ts_hist)
  next
    case False
    with pos obtain oldest rest where ts: "ts = oldest # rest" by (cases ts) auto
    with False have full: "maxRequestsPerMinute cfg \<le> Suc (length rest)" by simp
    have "oldest + 60000 \<le> c1"
      unfolding c1_def using ts full
      by (intro waitForRateLimit_full [where rest = rest]) (simp_all add: ts_def now1_def c_def)
    with order have old: "oldest \<le> now3 - 60000" by simp
    have "oldest \<in> set ts" by (simp add: ts)
    then have "now1 - 60000 < oldest" by (simp add: ts_hist)
    with old have "filter (\<lambda>t. t > now3 - 60000) hist = filter (\<lambda>t. t > now3 - 60000) ts"
      unfolding ts_hist by (auto intro!: filter_cong)
    moreover have "length (filter (\<lambda>t. t > now3 - 60000) ts) < length ts"
      using \<open>oldest \<in> set ts\<close> old by (intro length_filter_less [where x = oldest]) simp_all
    ultimately show ?thesis using ts_len by simp
  qed
  have A': "\<forall>t\<in>set (hist @ [now3]). t \<le> now3"
    using A order by auto
  have B': "now1 - 60000 \<le> now3 - 60000 \<and> ts @ [now3] = filter (\<lambda>t. t > now1 - 60000) (hist @ [now3])"
    using order by (simp add: ts_hist)
  have C': "length (filter (in_window T) (hist @ [now3])) \<le> maxRequestsPerMinute cfg" for T
  proof (cases "in_window T now3")
    case False
    then show ?thesis using C [of T] by simp
  next
    case True
    have "length (filter (in_window T) hist) \<le> length (filter (\<lambda>t. t > now3 - 60000) hist)"
      using True by (intro length_filter_le_weaker) (simp add: in_window_def)
    with K True show ?thesis by simp
  qed
  have B'': "\<exists>b. b \<le> now3 - 60000 \<and> ts @ [now3] = filter (\<lambda>t. t > b) (hist @ [now3])"
    using B' by blast
  have adm: "admit cfg e w = (ts @ [now3], now3)"
    using list by (simp add: now3_def prod_eq_iff)
  have "rate_inv cfg (hist @ [now3]) (ts @ [now3], now3)"
    unfolding rate_inv_def using A' B'' C' by simp
  then show ?thesis by (simp add: adm)
qed

lemma rate_inv_issued:
  assumes pos: "0 < maxRequestsPerMinute cfg"
  shows "rate_inv cfg hist w \<Longrightarrow>
    length (filter (in_window T) (hist @ issued cfg es w)) \<le> maxRequestsPerMinute cfg"
proof (induction es arbitrary: hist w)
  case Nil
  then show ?case by (simp add: rate_inv_def)
next
  case (Cons e es)
  from rate_inv_admit [OF Cons.prems pos, of e]
  have "length (filter (in_window T) ((hist @ [snd (admit cfg e w)]) @ issued cfg es (admit cfg e w)))
      \<le> maxRequestsPerMinute cfg"
    by (rule Cons.IH)
  then show ?case by simp
qed

lemma rate_inv_fresh: "rate_inv cfg [] ([], clock)"
  unfolding rate_inv_def by (auto intro: exI [of _ "clock - 60000"])

lemma rate_inv_advance:
  assumes "rate_inv cfg hist w"
  shows "rate_inv cfg hist (fst w, snd w + int n)"
proof -
  from assms obtain b where b: "b \<le> snd w - 60000" "fst w = filter (\<lambda>t. t > b) hist"
    by (auto simp: rate_inv_def)
  then have "\<exists>b. b \<le> snd w + int n - 60000 \<and> fst w = filter (\<lambda>t. t > b) hist"
    by (intro exI [of _ b]) simp
  moreover from assms have "\<forall>t\<in>set hist. t \<le> snd w + int n"
    by (fastforce simp: rate_inv_def)
  moreover from assms have "\<forall>T. length (filter (in_window T) hist) \<le> maxRequestsPerMinute cfg"
    by (simp add: rate_inv_def)
  ultimately show ?thesis by (simp add: rate_inv_def)
qed

lemma rate_inv_fetch_loop:
  assumes pos: "0 < maxRequestsPerMinute cfg"
  shows "rate_inv cfg hist w \<Longrightarrow>
    \<exists>more. rate_inv cfg (hist @ more) (snd (snd (fetch_loop cfg u envs a le w)))"
proof (induction "retryAttempts cfg - a" arbitrary: a le w hist)
  case 0
  then have "\<not> a < retryAttempts cfg" by simp
  then have "fetch_loop cfg u envs a le w = (Inl (exhausted_error cfg u le), a, w)"
    by (rule fetch_loop_done)
  with 0(2) show ?case by (intro exI [of _ "[]"]) simp
next
  case (Suc n)
  then have lt: "a < retryAttempts cfg" by simp
  define e where "e = envs a"
  define t where "t = snd (admit cfg e w)"
  define w1 where "w1 = (fst (admit cfg e w), snd (admit cfg e w) + int (latency e))"
  have inv1: "rate_inv cfg (hist @ [t]) w1"
    unfolding w1_def t_def
    using rate_inv_advance [OF rate_inv_admit [OF Suc.prems pos, of e], of "latency e"] by simp
  have n: "n = retryAttempts cfg - (a + 1)" using Suc(2) by simp
  have rec: "\<exists>more. rate_inv cfg (hist @ more)
      (snd (snd (fetch_loop cfg u envs (a + 1) le' (fst w1, snd w1 + int k))))" for le' k
  proof -
    have "rate_inv cfg (hist @ [t]) (fst w1, snd w1 + int k)"
      using inv1 by (rule rate_inv_advance)
    from Suc(1) [OF n this] obtain more where
      "rate_inv cfg ((hist @ [t]) @ more)
        (snd (snd (fetch_loop cfg u envs (a + 1) le' (fst w1, snd w1 + int k))))"
      by blast
    then show ?thesis by (intro exI [of _ "t # more"]) simp
  qed
  have rec0: "\<exists>more. rate_inv cfg (hist @ more)
      (snd (snd (fetch_loop cfg u envs (a + 1) le' w1)))" for le'
    using rec [of le' 0] by simp
  have fin: "\<exists>more. rate_inv cfg (hist @ more) w1"
    using inv1 by blast
  show ?case
    using lt rec rec0 fin
    by (simp add: fetch_loop.simps [of cfg u envs a le w] Let_def e_def [symmetric]
        w1_def [symmetric] split: sum.splits)
qed

lemma rate_inv_fetch_all:
  assumes pos: "0 < maxRequestsPerMinute cfg"
  shows "rate_inv cfg hist w \<Longrightarrow> \<exists>more. rate_inv cfg (hist @ more) (fetch_all cfg calls w)"
proof (induction calls arbitrary: hist w)
  case Nil
  then show ?case by (intro exI [of _ "[]"]) simp
next
  case (Cons call calls)
  obtain u envs pause where call: "call = (u, envs, pause)" by (cases call) auto
  from Cons.prems have "rate_inv cfg hist (fst w, snd w + int pause)"
    by (rule rate_inv_advance)
  from rate_inv_fetch_loop [OF pos this] obtain m1 where
    "rate_inv cfg (hist @ m1) (snd (snd (fetch_loop cfg u envs 0 None (fst w, snd w + int pause))))"
    by blast
  from Cons.IH [OF this] obtain m2 where
    "rate_inv cfg ((hist @ m1) @ m2)
      (fetch_all cfg calls (snd (snd (fetch_loop cfg u envs 0 None (fst w, snd w + int pause)))))"
    by blast
  then show ?case by (intro exI [of _ "m1 @ m2"]) (simp add: call)
qed

lemma rate_inv_list_window:
  assumes "rate_inv cfg hist w"
  shows "length (filter (in_window T) (fst w)) \<le> maxRequestsPerMinute cfg"
proof -
  from assms obtain b where "fst w = filter (\<lambda>t. t > b) hist" by (auto simp: rate_inv_def)
  then have "length (filter (in_window T) (fst w)) =
      length (filter (\<lambda>t. t > b \<and> in_window T t) hist)"
    by simp
  also have "\<dots> \<le> length (filter (in_window T) hist)"
    by (rule length_filter_le_weaker) simp
  also have "\<dots> \<le> maxRequestsPerMinute cfg" using assms by (simp add: rate_inv_def)
  finally show ?thesis .
qed

text \<open>
  C7 (as the code behaves).  With a limit of at least one request per minute, a clock that
  does not run backwards and timers that do not fire early, the timestamps recorded by
  any sequence of admissions made one after the other through a new fetcher never hold
  more than \<open>maxRequestsPerMinute\<close> entries in any window of 60000 milliseconds, a
  window ending at \<open>T\<close> holding the timestamps after \<open>T - 60000\<close> and up to \<open>T\<close>; the
  same holds of the list of timestamps of the fetcher after any sequence of calls of
  \<open>fetch\<close>.  Every admission first purges the timestamps that are 60000 milliseconds old
  or older.  When the list is then full, the caller is suspended for
  \<open>60000 - (now - oldest)\<close> milliseconds, not at all when that is not positive, and for
  no less; the timestamp is recorded after that.
\<close>

theorem rate_window_bound:
  "(0 < maxRequestsPerMinute cfg \<longrightarrow>
      length (filter (in_window T) (issued cfg es ([], clock))) \<le> maxRequestsPerMinute cfg
      \<and> length (filter (in_window T) (fst (fetch_all cfg calls ([], clock))))
          \<le> maxRequestsPerMinute cfg)
   \<and> fst (waitForRateLimit cfg e w) = filter (\<lambda>t. t > snd w + int (lag_enter e) - 60000) (fst w)
   \<and> (filter (\<lambda>t. t > snd w + int (lag_enter e) - 60000) (fst w) = oldest # rest
        \<and> maxRequestsPerMinute cfg \<le> Suc (length rest) \<longrightarrow>
      snd (waitForRateLimit cfg e w) =
        (let now2 = snd w + int (lag_enter e) + int (lag_check e);
             waitTime = 60000 - (now2 - oldest)
         in if waitTime > 0 then now2 + waitTime + int (lag_timer e) else now2))
   \<and> fst (admit cfg e w) = fst (waitForRateLimit cfg e w) @ [snd (admit cfg e w)]
   \<and> snd (admit cfg e w) = snd (waitForRateLimit cfg e w) + int (lag_push e)"
proof (intro conjI impI)
  assume pos: "0 < maxRequestsPerMinute cfg"
  then show "length (filter (in_window T) (issued cfg es ([], clock))) \<le> maxRequestsPerMinute cfg"
    using rate_inv_issued [of cfg "[]" "([], clock)" T es] rate_inv_fresh [of cfg clock] by simp
  from rate_inv_fetch_all [OF pos rate_inv_fresh [of cfg clock], of calls]
  obtain more where "rate_inv cfg ([] @ more) (fetch_all cfg calls ([], clock))" by blast
  then show "length (filter (in_window T) (fst (fetch_all cfg calls ([], clock))))
      \<le> maxRequestsPerMinute cfg"
    by (rule rate_inv_list_window)
next
  show "fst (waitForRateLimit cfg e w) = filter (\<lambda>t. t > snd w + int (lag_enter e) - 60000) (fst w)"
    by (rule waitForRateLimit_list)
next
  assume "filter (\<lambda>t. t > snd w + int (lag_enter e) - 60000) (fst w) = oldest # rest
        \<and> maxRequestsPerMinute cfg \<le> Suc (length rest)"
  then show "snd (waitForRateLimit cfg e w) =
        (let now2 = snd w + int (lag_enter e) + int (lag_check e);
             waitTime = 60000 - (now2 - oldest)
         in if waitTime > 0 then now2 + waitTime + int (lag_timer e) else now2)"
    using waitForRateLimit_suspension by blast
next
  show "fst (admit cfg e w) = fst (waitForRateLimit cfg e w) @ [snd (admit cfg e w)]"
    by (rule admit_list)
next
  show "snd (admit cfg e w) = snd (waitForRateLimit cfg e w) + int (lag_push e)"
    by (rule admit_clock)
qed

theorem rate_window_bound_witness:
  "length (filter (in_window 60000)
     (issued \<lparr> maxRequestsPerMinute = 2, retryAttempts = 3, retryDelay = 5000 \<rparr>
        [\<lparr> lag_enter = 0, lag_check = 0, lag_timer = 0, lag_push = 0, latency = 0, outcome = Inl (Error []) \<rparr>,
         \<lparr> lag_enter = 0, lag_check = 0, lag_timer = 0, lag_push = 0, latency = 0, outcome = Inl (Error []) \<rparr>,
         \<lparr> lag_enter = 0, lag_check = 0, lag_timer = 0, lag_push = 0, latency = 0, outcome = Inl (Error []) \<rparr>]
        ([], 0)))
     \<le> maxRequestsPerMinute \<lparr> maxRequestsPerMinute = 2, retryAttempts = 3, retryDelay = 5000 \<rparr>
   \<and> issued \<lparr> maxRequestsPerMinute = 2, retryAttempts = 3, retryDelay = 5000 \<rparr>
        [\<lparr> lag_enter = 0, lag_check = 0, lag_timer = 0, lag_push = 0, latency = 0, outcome = Inl (Error []) \<rparr>,
         \<lparr> lag_enter = 0, lag_check = 0, lag_timer = 0, lag_push = 0, latency = 0, outcome = Inl (Error []) \<rparr>,
         \<lparr> lag_enter = 0, lag_check = 0, lag_timer = 0, lag_push = 0, latency = 0, outcome = Inl (Error []) \<rparr>]
        ([], 0) = [0, 0, 60000]"
proof -
  let ?cfg = "\<lparr> maxRequestsPerMinute = 2, retryAttempts = 3, retryDelay = 5000 \<rparr>"
  let ?e = "\<lparr> lag_enter = 0, lag_check = 0, lag_timer = 0, lag_push = 0, latency = 0,
      outcome = Inl (Error []) :: js_error + HttpResponse \<rparr>"
  have pos: "0 < maxRequestsPerMinute ?cfg" by simp
  have run: "issued ?cfg [?e, ?e, ?e] ([], 0) = [0, 0, 60000]"
    by (simp add: admit_def waitForRateLimit_def push_timestamp_def Let_def)
  from rate_window_bound [where cfg = ?cfg and T = 60000 and es = "[?e, ?e, ?e]" and clock = 0]
    pos run
  show ?thesis by blast
qed

text \<open>With a limit of 0 the list is always full; \<open>oldestTimestamp\<close> is \<open>undefined\<close> on the
  empty list, the wait time is \<open>NaN\<close> and nothing waits: one admission is recorded, more
  than the limit.\<close>

theorem rate_window_bound_counterexample:
  "length (filter (in_window 0)
     (issued \<lparr> maxRequestsPerMinute = 0, retryAttempts = 3, retryDelay = 5000 \<rparr>
        [\<lparr> lag_enter = 0, lag_check = 0, lag_timer = 0, lag_push = 0, latency = 0, outcome = Inl (Error []) \<rparr>]
        ([], 0)))
     > maxRequestsPerMinute \<lparr> maxRequestsPerMinute = 0, retryAttempts = 3, retryDelay = 5000 \<rparr>"
  by (simp add: admit_def waitForRateLimit_def push_timestamp_def Let_def in_window_def)

section \<open>Properties of the calendar arithmetic\<close>

lemma div_succ:
  fixes a k :: int
  assumes k: "0 < k"
  shows "(a + 1) div k = (if (a + 1) mod k = 0 then a div k + 1 else a div k)"
proof -
  define q where "q = (a + 1) div k"
  define r where "r = (a + 1) mod k"
  have eq: "a + 1 = k * q + r" by (simp add: q_def r_def)
  have r: "0 \<le> r" "r < k" using k by (simp_all add: r_def)
  show ?thesis
  proof (cases "r = 0")
    case True
    then have "a = k * (q - 1) + (k - 1)" using eq by (simp add: algebra_simps)
    then have "a div k = q - 1" using k by (intro int_div_pos_eq [where r = "k - 1"]) auto
    with True show ?thesis by (simp add: q_def r_def)
  next
    case False
    then have "a = k * q + (r - 1)" using eq by simp
    then have "a div k = q" using r False by (intro int_div_pos_eq [where r = "r - 1"]) auto
    with False show ?thesis by (simp add: q_def r_def)
  qed
qed

lemma mod_shift: "c mod k = 0 \<Longrightarrow> (y - c) mod k = y mod k" for y :: int
  using mod_diff_right_eq [of y c k] by simp

lemma DayFromYear_step: "DayFromYear (y + 1) = DayFromYear y + DaysInYear y"
proof -
  have a: "(y - 1968) div 4 = (y - 1969) div 4 + (if y mod 4 = 0 then 1 else 0)"
    using div_succ [of 4 "y - 1969"] mod_shift [of 1968 4 y] by simp
  have b: "(y - 1900) div 100 = (y - 1901) div 100 + (if y mod 100 = 0 then 1 else 0)"
    using div_succ [of 100 "y - 1901"] mod_shift [of 1900 100 y] by simp
  have c: "(y - 1600) div 400 = (y - 1601) div 400 + (if y mod 400 = 0 then 1 else 0)"
    using div_succ [of 400 "y - 1601"] mod_shift [of 1600 400 y] by simp
  have d1: "y mod 100 = 0" if "y mod 400 = 0"
  proof -
    have "(100::int) dvd 400" by simp
    moreover from that have "400 dvd y" by (simp add: mod_eq_0_iff_dvd)
    ultimately have "100 dvd y" by (rule dvd_trans)
    then show ?thesis by (simp add: mod_eq_0_iff_dvd)
  qed
  have d2: "y mod 4 = 0" if "y mod 100 = 0"
  proof -
    have "(4::int) dvd 100" by simp
    moreover from that have "100 dvd y" by (simp add: mod_eq_0_iff_dvd)
    ultimately have "4 dvd y" by (rule dvd_trans)
    then show ?thesis by (simp add: mod_eq_0_iff_dvd)
  qed
  show ?thesis
    unfolding DayFromYear_def DaysInYear_def using d1 d2
    by (simp add: a b c)
qed

lemma DaysInYear_bounds: "365 \<le> DaysInYear y" "DaysInYear y \<le> 366"
  by (simp_all add: DaysInYear_def)

lemma DayFromYear_mono_aux: "DayFromYear y \<le> DayFromYear (y + int n)"
proof (induction n)
  case 0
  show ?case by simp
next
  case (Suc n)
  have "DayFromYear (y + int (Suc n)) = DayFromYear (y + int n) + DaysInYear (y + int n)"
    using DayFromYear_step [of "y + int n"] by (simp add: add.commute add.left_commute)
  with Suc DaysInYear_bounds(1) [of "y + int n"] show ?case by linarith
qed

lemma DayFromYear_mono: "y \<le> y' \<Longrightarrow> DayFromYear y \<le> DayFromYear y'"
  using DayFromYear_mono_aux [of y "nat (y' - y)"] by simp

lemma DayFromYear_lower_aux: "365 * int n \<le> DayFromYear (1970 + int n)"
proof (induction n)
  case 0
  show ?case by (simp add: DayFromYear_def)
next
  case (Suc n)
  have "DayFromYear (1970 + int (Suc n)) = DayFromYear (1970 + int n) + DaysInYear (1970 + int n)"
    using DayFromYear_step [of "1970 + int n"] by (simp add: add.commute add.left_commute)
  with Suc DaysInYear_bounds(1) [of "1970 + int n"] show ?case by simp
qed

lemma DayFromYear_upper_aux: "- 366 * int n \<le> DayFromYear (1970 - int n)"
proof (induction n)
  case 0
  show ?case by (simp add: DayFromYear_def)
next
  case (Suc n)
  have "DayFromYear (1970 - int n) = DayFromYear (1970 - int (Suc n)) + DaysInYear (1970 - int (Suc n))"
    using DayFromYear_step [of "1970 - int (Suc n)"] by (simp add: algebra_simps)
  with Suc DaysInYear_bounds(2) [of "1970 - int (Suc n)"] show ?case by simp
qed

lemma year_estimate:
  assumes "DayFromYear y \<le> d"
  shows "y \<le> 1970 + (if 0 \<le> d then d div 365 else d div 366)"
proof (cases "0 \<le> d")
  case True
  show ?thesis
  proof (cases "y \<le> 1970")
    case True
    with \<open>0 \<le> d\<close> show ?thesis
      using pos_imp_zdiv_nonneg_iff [of 365 d] by simp
  next
    case False
    then have "365 * (y - 1970) \<le> DayFromYear y"
      using DayFromYear_lower_aux [of "nat (y - 1970)"] by simp
    with assms have "365 * (y - 1970) \<le> d" by simp
    then have "(365 * (y - 1970)) div 365 \<le> d div 365" by (intro zdiv_mono1) simp_all
    with True show ?thesis by simp
  qed
next
  case False
  with assms have neg: "DayFromYear y < 0" by simp
  have "y \<le> 1970"
  proof (rule ccontr)
    assume "\<not> y \<le> 1970"
    then have "DayFromYear 1970 \<le> DayFromYear y" by (intro DayFromYear_mono) simp
    with neg show False by (simp add: DayFromYear_def)
  qed
  then have "366 * (y - 1970) \<le> DayFromYear y"
    using DayFromYear_upper_aux [of "nat (1970 - y)"] by simp
  with assms have "366 * (y - 1970) \<le> d" by simp
  then have "(366 * (y - 1970)) div 366 \<le> d div 366" by (intro zdiv_mono1) simp_all
  with False show ?thesis by simp
qed

lemma year_search_down_finds:
  assumes "DayFromYear y \<le> d" "d < DayFromYear (y + 1)"
  shows "y \<le> u \<Longrightarrow> year_search_down d u = y"
proof (induction "nat (u - y)" arbitrary: u)
  case 0
  then have "u = y" by simp
  with assms(1) show ?case by (simp add: year_search_down.simps [of d y])
next
  case (Suc n)
  then have gt: "y + 1 \<le> u" by linarith
  then have "DayFromYear (y + 1) \<le> DayFromYear u" by (rule DayFromYear_mono)
  with assms(2) have "\<not> DayFromYear u \<le> d" by simp
  then have "year_search_down d u = year_search_down d (u - 1)"
    by (simp add: year_search_down.simps [of d u])
  also have "\<dots> = y" using Suc(2) gt by (intro Suc(1)) simp_all
  finally show ?case .
qed

lemma YearFromDay_unique:
  "DayFromYear y \<le> d \<Longrightarrow> d < DayFromYear (y + 1) \<Longrightarrow> YearFromDay d = y"
  unfolding YearFromDay_def by (rule year_search_down_finds) (simp_all add: year_estimate)

lemma month_cases:
  fixes m :: int
  assumes "1 \<le> m" "m \<le> 12"
  shows "m = 1 \<or> m = 2 \<or> m = 3 \<or> m = 4 \<or> m = 5 \<or> m = 6 \<or> m = 7 \<or> m = 8
         \<or> m = 9 \<or> m = 10 \<or> m = 11 \<or> m = 12"
  using assms by arith

lemma leap_flag: "DaysInYear y = 365 + (if DaysInYear y = 366 then 1 else 0)"
  by (simp add: DaysInYear_def)

lemma day_within_year_valid:
  assumes "1 \<le> m" "m \<le> 12" "1 \<le> d" "d \<le> DaysInMonth y m"
  shows "0 \<le> MonthStart (if DaysInYear y = 366 then 1 else 0) (m - 1) + d - 1"
    and "MonthStart (if DaysInYear y = 366 then 1 else 0) (m - 1) + d - 1 < DaysInYear y"
  using month_cases [OF assms(1,2)] assms(3,4) leap_flag [of y]
  by (elim disjE; simp add: MonthStart_def DaysInMonth_def split: if_splits)+

lemma month_of_day_within_year:
  assumes "1 \<le> m" "m \<le> 12" "1 \<le> d" "d \<le> DaysInMonth y m"
    and "leap = (if DaysInYear y = 366 then 1 else 0)"
    and "dwy = MonthStart leap (m - 1) + d - 1"
  shows "(if dwy < 31 then 0 else if dwy < 59 + leap then 1 else if dwy < 90 + leap then 2
      else if dwy < 120 + leap then 3 else if dwy < 151 + leap then 4
      else if dwy < 181 + leap then 5 else if dwy < 212 + leap then 6
      else if dwy < 243 + leap then 7 else if dwy < 273 + leap then 8
      else if dwy < 304 + leap then 9 else if dwy < 334 + leap then 10
      else 11) = m - 1"
  using month_cases [OF assms(1,2)] assms(3-6)
  by (elim disjE; simp add: MonthStart_def DaysInMonth_def split: if_splits)

lemma Day_MakeDate:
  assumes "0 \<le> tod" "tod < msPerDay"
  shows "Day (MakeDate D tod) = D" and "TimeWithinDay (MakeDate D tod) = tod"
proof -
  have pos: "0 < msPerDay" by (simp add: msPerDay_def)
  show "Day (MakeDate D tod) = D"
    unfolding Day_def MakeDate_def using assms pos
    by (intro int_div_pos_eq [where r = tod]) (simp_all add: mult.commute)
  show "TimeWithinDay (MakeDate D tod) = tod"
    unfolding TimeWithinDay_def MakeDate_def using assms pos
    by (intro int_mod_pos_eq [where q = D]) (simp_all add: mult.commute)
qed

lemma MakeDay_valid_month:
  assumes "1 \<le> m" "m \<le> 12"
  shows "MakeDay y (m - 1) d =
    DayFromYear y + MonthStart (if DaysInYear y = 366 then 1 else 0) (m - 1) + d - 1"
proof -
  have "(m - 1) div 12 = 0" "(m - 1) mod 12 = m - 1" using assms by simp_all
  then show ?thesis by (simp add: MakeDay_def Let_def)
qed

lemma calendar_roundtrip:
  assumes m: "1 \<le> m" "m \<le> 12" and d: "1 \<le> d" "d \<le> DaysInMonth y m"
    and tod: "0 \<le> tod" "tod < msPerDay"
  shows "YearFromTime (MakeDate (MakeDay y (m - 1) d) tod) = y"
    and "MonthFromTime (MakeDate (MakeDay y (m - 1) d) tod) = m - 1"
    and "DateFromTime (MakeDate (MakeDay y (m - 1) d) tod) = d"
    and "TimeWithinDay (MakeDate (MakeDay y (m - 1) d) tod) = tod"
proof -
  define leap :: int where "leap = (if DaysInYear y = 366 then 1 else 0)"
  define dwy where "dwy = MonthStart leap (m - 1) + d - 1"
  define t where "t = MakeDate (MakeDay y (m - 1) d) tod"
  have md: "MakeDay y (m - 1) d = DayFromYear y + dwy"
    using MakeDay_valid_month [OF m] by (simp add: dwy_def leap_def)
  have day: "Day t = DayFromYear y + dwy"
    using Day_MakeDate(1) [OF tod] by (simp add: t_def md)
  have range: "0 \<le> dwy" "dwy < DaysInYear y"
    using day_within_year_valid [OF m d] by (simp_all add: dwy_def leap_def)
  have year: "YearFromTime t = y"
    unfolding YearFromTime_def day
    using range by (intro YearFromDay_unique) (simp_all add: DayFromYear_step)
  have inleap: "InLeapYear t = leap" by (simp add: InLeapYear_def year leap_def)
  have within: "DayWithinYear t = dwy" by (simp add: DayWithinYear_def year day)
  have month: "MonthFromTime t = m - 1"
    unfolding MonthFromTime_def Let_def inleap within
    by (rule month_of_day_within_year [OF m d leap_def dwy_def])
  show "YearFromTime (MakeDate (MakeDay y (m - 1) d) tod) = y"
    using year by (simp add: t_def)
  show "MonthFromTime (MakeDate (MakeDay y (m - 1) d) tod) = m - 1"
    using month by (simp add: t_def)
  show "DateFromTime (MakeDate (MakeDay y (m - 1) d) tod) = d"
    using month inleap within by (simp add: DateFromTime_def t_def [symmetric] dwy_def)
  show "TimeWithinDay (MakeDate (MakeDay y (m - 1) d) tod) = tod"
    by (rule Day_MakeDate(2) [OF tod])
qed

lemma length_fixed_digits [simp]: "length (fixed_digits k n) = k"
  by (induction k arbitrary: n) simp_all

lemma digit_char_0: "digit_char 0 = CHR ''0''"
proof -
  have "(of_char (digit_char 0) :: nat) = of_char (CHR ''0'')" by (simp add: digit_char_def)
  then show ?thesis by (simp only: of_char_eq_iff)
qed

lemma fixed_digits_zero: "fixed_digits k 0 = replicate k (CHR ''0'')"
  by (induction k) (simp_all add: digit_char_0 replicate_append_same)

lemma padStart_snoc: "padStart (Suc k) c (xs @ [x]) = padStart k c xs @ [x]"
  by (simp add: padStart_def)

lemma padStart_nat_toString:
  "n < 10 ^ k \<Longrightarrow> 0 < k \<Longrightarrow> padStart k (CHR ''0'') (nat_toString n) = fixed_digits k n"
proof (induction k arbitrary: n)
  case 0
  then show ?case by simp
next
  case (Suc k)
  show ?case
  proof (cases "n < 10")
    case True
    then have "nat_toString n = [digit_char n]" by (simp add: nat_toString.simps)
    moreover from True have "fixed_digits (Suc k) n = replicate k (CHR ''0'') @ [digit_char n]"
      by (simp add: fixed_digits_zero)
    ultimately show ?thesis by (simp add: padStart_def)
  next
    case False
    then have ts: "nat_toString n = nat_toString (n div 10) @ [digit_char (n mod 10)]"
      by (simp add: nat_toString.simps [of n])
    from Suc.prems have small: "n div 10 < 10 ^ k" by (simp add: less_mult_imp_div_less mult.commute)
    with False have "0 < k" by (cases k) auto
    with small have "padStart k (CHR ''0'') (nat_toString (n div 10)) = fixed_digits k (n div 10)"
      by (rule Suc.IH)
    then show ?thesis by (simp add: ts padStart_snoc)
  qed
qed

lemma fixed_digits_append:
  "fixed_digits (j + k) n = fixed_digits j (n div 10 ^ k) @ fixed_digits k n"
proof (induction k arbitrary: n)
  case 0
  show ?case by simp
next
  case (Suc k)
  have "(n div 10) div 10 ^ k = n div 10 ^ Suc k" by (simp add: div_mult2_eq)
  with Suc [of "n div 10"] show ?case by simp
qed

lemma digit_value_digit_char: "n < 10 \<Longrightarrow> digit_value (digit_char n) = Some n"
  by (simp add: digit_value_def digit_char_def Let_def)

lemma digits_value_fixed_digits: "digits_value 10 (fixed_digits k n) = n mod 10 ^ k"
proof (induction k arbitrary: n)
  case 0
  show ?case by (simp add: digits_value_def)
next
  case (Suc k)
  have "digits_value 10 (fixed_digits (Suc k) n) =
          10 * digits_value 10 (fixed_digits k (n div 10)) + n mod 10"
    by (simp add: digits_value_def digit_value_digit_char)
  also have "\<dots> = 10 * ((n div 10) mod 10 ^ k) + n mod 10" by (simp add: Suc)
  also have "\<dots> = n mod 10 ^ Suc k"
    by (simp add: mod_mult2_eq)
  finally show ?case .
qed

lemma fixed_digits_chars:
  "c \<in> set (fixed_digits k n) \<Longrightarrow> \<exists>i<10. c = digit_char i"
proof (induction k arbitrary: n)
  case 0
  then show ?case by simp
next
  case (Suc k)
  then consider "c \<in> set (fixed_digits k (n div 10))" | "c = digit_char (n mod 10)" by auto
  then show ?case
  proof cases
    case 1
    then show ?thesis by (rule Suc.IH)
  next
    case 2
    moreover have "n mod 10 < 10" by simp
    ultimately show ?thesis by blast
  qed
qed

lemma digit_char_props:
  assumes "i < 10"
  shows "\<not> is_whitespace (digit_char i)" "digit_char i \<noteq> CHR ''-''" "digit_char i \<noteq> CHR ''+''"
    "digit_char i \<noteq> CHR ''x''" "digit_char i \<noteq> CHR ''X''" "is_radix_digit 10 (digit_char i)"
proof -
  have v: "of_char (digit_char i) = 48 + i" using assms by (simp add: digit_char_def)
  show "\<not> is_whitespace (digit_char i)"
    using v assms by (auto simp: is_whitespace_def)
  show "digit_char i \<noteq> CHR ''-''" using v assms by auto
  show "digit_char i \<noteq> CHR ''+''" using v assms by auto
  show "digit_char i \<noteq> CHR ''x''" using v assms by auto
  show "digit_char i \<noteq> CHR ''X''" using v assms by auto
  show "is_radix_digit 10 (digit_char i)"
    using assms by (simp add: is_radix_digit_def digit_value_digit_char)
qed

lemma parseInt_fixed_digits:
  assumes "0 < k"
  shows "parseInt (fixed_digits k n) = Some (int (n mod 10 ^ k))"
proof -
  let ?s = "fixed_digits k n"
  have all: "\<forall>c\<in>set ?s. \<exists>i<10. c = digit_char i" using fixed_digits_chars by blast
  from assms obtain c0 cs where s: "?s = c0 # cs"
    by (metis length_fixed_digits length_greater_0_conv neq_Nil_conv)
  from all s obtain i0 where i0: "i0 < 10" "c0 = digit_char i0" by auto
  have ws: "dropWhile is_whitespace ?s = ?s"
    using digit_char_props(1) [OF i0(1)] by (simp add: s i0(2))
  have sign: "take 1 ?s \<noteq> ''-''" "take 1 ?s \<noteq> ''+''"
    using digit_char_props(2,3) [OF i0(1)] by (simp_all add: s i0(2))
  have prefix: "take 2 ?s \<noteq> ''0x''" "take 2 ?s \<noteq> ''0X''"
  proof -
    show "take 2 ?s \<noteq> ''0x''"
    proof (cases cs)
      case Nil
      then show ?thesis by (simp add: s)
    next
      case (Cons c1 cs')
      with all s obtain i1 where "i1 < 10" "c1 = digit_char i1" by auto
      then show ?thesis using digit_char_props(4) [of i1] by (simp add: s Cons)
    qed
    show "take 2 ?s \<noteq> ''0X''"
    proof (cases cs)
      case Nil
      then show ?thesis by (simp add: s)
    next
      case (Cons c1 cs')
      with all s obtain i1 where "i1 < 10" "c1 = digit_char i1" by auto
      then show ?thesis using digit_char_props(5) [of i1] by (simp add: s Cons)
    qed
  qed
  have tw: "takeWhile (is_radix_digit 10) ?s = ?s"
    using all digit_char_props(6) by (intro takeWhile_eq_all_conv [THEN iffD2]) auto
  have ne: "?s \<noteq> []" by (simp add: s)
  show ?thesis
    unfolding parseInt_def Let_def ws
    using sign prefix ne by (simp add: tw digits_value_fixed_digits)
qed

lemma parseCalendarDate_decode:
  assumes "0 \<le> m" "m < 100" "0 \<le> d" "d < 100"
  shows "parseCalendarDate (m * 100 + d) = (Some m, Some d)"
proof -
  define v where "v = nat (m * 100 + d)"
  have v: "v = nat m * 100 + nat d"
    using assms by (simp add: v_def nat_add_distrib nat_mult_distrib)
  have "v < 10 ^ 4" using assms by (simp add: v)
  then have pad: "padStart 4 (CHR ''0'') (nat_toString v) = fixed_digits 4 v"
    by (rule padStart_nat_toString) simp
  have split: "fixed_digits 4 v = fixed_digits 2 (v div 10 ^ 2) @ fixed_digits 2 v"
    using fixed_digits_append [of 2 2 v] by simp
  have str: "padStart 4 (CHR ''0'') (Number_toString (Some (m * 100 + d))) =
      fixed_digits 2 (v div 10 ^ 2) @ fixed_digits 2 v"
    using assms pad split by (simp add: Number_toString_def v_def)
  have month: "parseInt (slice 0 2 (fixed_digits 2 (v div 10 ^ 2) @ fixed_digits 2 v)) = Some m"
    using assms by (simp add: slice_def parseInt_fixed_digits v)
  have day: "parseInt (drop 2 (fixed_digits 2 (v div 10 ^ 2) @ fixed_digits 2 v)) = Some d"
    using assms by (simp add: parseInt_fixed_digits v)
  show ?thesis
    unfolding parseCalendarDate_def Let_def str by (simp only: month day)
qed

lemma split_date_snoc:
  "split_date (s @ [c]) = split_step (split_date s) (c, length s)"
  by (simp add: split_date_def)

lemma split_date_eq: "split_date s = (take 4 s, take 2 (drop 4 s), drop 6 s)"
proof (induction s rule: rev_induct)
  case Nil
  show ?case by (simp add: split_date_def)
next
  case (snoc c s)
  show ?case
    unfolding split_date_snoc snoc by auto
qed

lemma length_nat_toString: "10 ^ k \<le> n \<Longrightarrow> k < length (nat_toString n)"
proof (induction k arbitrary: n)
  case 0
  show ?case by (subst nat_toString.simps) simp
next
  case (Suc k)
  then have "10 \<le> n" using le_trans [of 10 "10 ^ Suc k" n] by simp
  then have ts: "nat_toString n = nat_toString (n div 10) @ [digit_char (n mod 10)]"
    by (simp add: nat_toString.simps [of n])
  from Suc.prems have "10 ^ k \<le> n div 10" by (simp add: less_eq_div_iff_mult_less_eq mult.commute)
  then have "k < length (nat_toString (n div 10))" by (rule Suc.IH)
  then show ?case by (simp add: ts)
qed

lemma nat_toString_four_digits:
  assumes "1000 \<le> n" "n < 10000"
  shows "nat_toString n = fixed_digits 4 n"
proof -
  have "3 < length (nat_toString n)" using assms(1) by (intro length_nat_toString) simp
  then have "padStart 4 (CHR ''0'') (nat_toString n) = nat_toString n"
    by (simp add: padStart_def)
  moreover have "padStart 4 (CHR ''0'') (nat_toString n) = fixed_digits 4 n"
    using assms(2) by (intro padStart_nat_toString) simp_all
  ultimately show ?thesis by simp
qed

lemma formatIdentifier_digits:
  assumes "1000 \<le> y" "y \<le> 9999" "0 \<le> m" "m < 100" "0 \<le> d" "d < 100"
  shows "formatIdentifier y (Some m) (Some d) =
    fixed_digits 4 (nat y) @ fixed_digits 2 (nat m) @ fixed_digits 2 (nat d)"
proof -
  have "nat_toString (nat y) = fixed_digits 4 (nat y)"
    using assms by (intro nat_toString_four_digits) simp_all
  moreover have "padStart 2 (CHR ''0'') (nat_toString (nat m)) = fixed_digits 2 (nat m)"
    using assms by (intro padStart_nat_toString) simp_all
  moreover have "padStart 2 (CHR ''0'') (nat_toString (nat d)) = fixed_digits 2 (nat d)"
    using assms by (intro padStart_nat_toString) simp_all
  ultimately show ?thesis
    using assms by (simp add: formatIdentifier_def Number_toString_def)
qed

lemma createTimestamp_digits:
  assumes "0 \<le> y" "y \<le> 9999" "0 \<le> m" "m < 100" "0 \<le> d" "d < 100"
    and "0 \<le> h" "h < 100" "0 \<le> mi" "mi < 100" "0 \<le> s" "s < 100"
  shows "createTimestamp tz (fixed_digits 4 (nat y) @ fixed_digits 2 (nat m) @ fixed_digits 2 (nat d))
           (h * 10000 + mi * 100 + s) =
         new_Date tz (Some y) (Some (m - 1)) (Some d) (Some h) (Some mi) (Some s)"
proof -
  define v where "v = nat (h * 10000 + mi * 100 + s)"
  have v: "v = nat h * 10000 + nat mi * 100 + nat s"
    using assms by (simp add: v_def nat_add_distrib nat_mult_distrib)
  have "v < 10 ^ 6" using assms by (simp add: v)
  then have pad: "padStart 6 (CHR ''0'') (nat_toString v) = fixed_digits 6 v"
    by (rule padStart_nat_toString) simp
  have split: "fixed_digits 6 v =
      fixed_digits 2 (v div 10 ^ 4) @ fixed_digits 2 (v div 10 ^ 2) @ fixed_digits 2 v"
    using fixed_digits_append [of 2 4 v] fixed_digits_append [of 2 2 v] by simp
  have str: "padStart 6 (CHR ''0'') (Number_toString (Some (h * 10000 + mi * 100 + s))) =
      fixed_digits 2 (v div 10 ^ 4) @ fixed_digits 2 (v div 10 ^ 2) @ fixed_digits 2 v"
    using assms pad split by (simp add: Number_toString_def v_def)
  have hours: "parseInt (slice 0 2
      (fixed_digits 2 (v div 10 ^ 4) @ fixed_digits 2 (v div 10 ^ 2) @ fixed_digits 2 v)) = Some h"
    using assms by (simp add: slice_def parseInt_fixed_digits v)
  have "(nat h * 10000 + nat mi * 100 + nat s) div 100 = nat h * 100 + nat mi"
    using assms by simp
  then have minutes: "parseInt (slice 2 4
      (fixed_digits 2 (v div 10 ^ 4) @ fixed_digits 2 (v div 10 ^ 2) @ fixed_digits 2 v)) = Some mi"
    using assms by (simp add: slice_def parseInt_fixed_digits v)
  have "(nat h * 10000 + nat mi * 100 + nat s) mod 100 = nat s"
    using assms by (simp add: mod_add_left_eq [symmetric] mod_mult_left_eq)
  then have seconds: "parseInt (drop 4
      (fixed_digits 2 (v div 10 ^ 4) @ fixed_digits 2 (v div 10 ^ 2) @ fixed_digits 2 v)) = Some s"
    using assms by (simp add: parseInt_fixed_digits v)
  have date: "split_date (fixed_digits 4 (nat y) @ fixed_digits 2 (nat m) @ fixed_digits 2 (nat d)) =
      (fixed_digits 4 (nat y), fixed_digits 2 (nat m), fixed_digits 2 (nat d))"
    by (simp add: split_date_eq)
  have ymd: "parseInt (fixed_digits 4 (nat y)) = Some y" "parseInt (fixed_digits 2 (nat m)) = Some m"
    "parseInt (fixed_digits 2 (nat d)) = Some d"
    using assms by (simp_all add: parseInt_fixed_digits)
  show ?thesis
    unfolding createTimestamp_def Let_def str date
    by (simp only: hours minutes seconds ymd prod.case option.map)
qed

lemma time_components:
  assumes "0 \<le> h" "h < 24" "0 \<le> mi" "mi < 60" "0 \<le> s" "s < 60"
  shows "0 \<le> MakeTime h mi s 0" "MakeTime h mi s 0 < msPerDay"
    "HourFromTime (MakeDate D (MakeTime h mi s 0)) = h"
    "MinFromTime (MakeDate D (MakeTime h mi s 0)) = mi"
    "SecFromTime (MakeDate D (MakeTime h mi s 0)) = s"
proof -
  let ?t = "MakeDate D (MakeTime h mi s 0)"
  show "0 \<le> MakeTime h mi s 0" "MakeTime h mi s 0 < msPerDay"
    using assms by (simp_all add: MakeTime_def msPerDay_def msPerHour_def msPerMinute_def msPerSecond_def)
  have "?t = msPerHour * (D * 24 + h) + (mi * 60000 + s * 1000)"
    by (simp add: MakeDate_def MakeTime_def msPerDay_def msPerHour_def msPerMinute_def msPerSecond_def)
  then have "?t div msPerHour = D * 24 + h"
    using assms by (intro int_div_pos_eq [where r = "mi * 60000 + s * 1000"])
      (simp_all add: msPerHour_def)
  then show "HourFromTime ?t = h" using assms by (simp add: HourFromTime_def)
  have "?t = msPerMinute * (D * 1440 + h * 60 + mi) + s * 1000"
    by (simp add: MakeDate_def MakeTime_def msPerDay_def msPerHour_def msPerMinute_def msPerSecond_def)
  then have "?t div msPerMinute = D * 1440 + h * 60 + mi"
    using assms by (intro int_div_pos_eq [where r = "s * 1000"]) (simp_all add: msPerMinute_def)
  moreover have "(D * 1440 + h * 60 + mi) mod 60 = mi"
    using assms by (intro int_mod_pos_eq [where q = "D * 24 + h"]) simp_all
  ultimately show "MinFromTime ?t = mi" by (simp add: MinFromTime_def)
  have "?t = msPerSecond * (D * 86400 + h * 3600 + mi * 60 + s) + 0"
    by (simp add: MakeDate_def MakeTime_def msPerDay_def msPerHour_def msPerMinute_def msPerSecond_def)
  then have "?t div msPerSecond = D * 86400 + h * 3600 + mi * 60 + s"
    by (intro int_div_pos_eq [where r = 0]) (simp_all add: msPerSecond_def)
  moreover have "(D * 86400 + h * 3600 + mi * 60 + s) mod 60 = s"
    using assms by (intro int_mod_pos_eq [where q = "D * 1440 + h * 60 + mi"]) simp_all
  ultimately show "SecFromTime ?t = s" by (simp add: SecFromTime_def)
qed

lemma LocalTime_UTC: "valid_local_time tz wt \<Longrightarrow> LocalTime tz (UTC tz wt) = wt"
  by (simp add: valid_local_time_def LocalTime_def) (simp add: UTC_def)

lemma local_time_range:
  assumes "1000 \<le> y" "y \<le> 9999" "1 \<le> m" "m \<le> 12" "1 \<le> d" "d \<le> DaysInMonth y m"
    and "0 \<le> tod" "tod < msPerDay"
  shows "\<bar>MakeDate (MakeDay y (m - 1) d) tod\<bar> \<le> 253402300800000"
proof -
  define dwy where "dwy = MonthStart (if DaysInYear y = 366 then 1 else 0) (m - 1) + d - 1"
  have md: "MakeDay y (m - 1) d = DayFromYear y + dwy"
    using MakeDay_valid_month [OF assms(3,4)] by (simp add: dwy_def)
  have range: "0 \<le> dwy" "dwy < DaysInYear y"
    using day_within_year_valid [OF assms(3-6)] by (simp_all add: dwy_def)
  have "DayFromYear 1000 \<le> DayFromYear y" "DayFromYear (y + 1) \<le> DayFromYear 10000"
    using assms(1,2) by (simp_all add: DayFromYear_mono)
  moreover have "DayFromYear 1000 = - 354285" "DayFromYear 10000 = 2932897"
    by (simp_all add: DayFromYear_def)
  ultimately have "- 354285 \<le> DayFromYear y + dwy" "DayFromYear y + dwy < 2932897"
    using range by (simp_all add: DayFromYear_step)
  then show ?thesis
    using assms(7,8) by (simp add: MakeDate_def md msPerDay_def)
qed

lemma new_Date_Some:
  "99 < y \<Longrightarrow> new_Date tz (Some y) (Some m) (Some d) (Some h) (Some mi) (Some s) =
     TimeClip (UTC tz (MakeDate (MakeDay y m d) (MakeTime h mi s 0)))"
  by (simp add: new_Date_def)

lemma valid_local_time_fixed_offset:
  "\<bar>c\<bar> \<le> msPerDay \<Longrightarrow> valid_local_time (fixed_offset c) wt"
  by (simp add: valid_local_time_def fixed_offset_def)

lemma DaysInMonth_le_31: "DaysInMonth y m \<le> 31"
  by (simp add: DaysInMonth_def)









section \<open>Properties of the date encodings\<close>

text \<open>
  C9 (as the code behaves).  For every year from 1000 to 9999, month from 1 to 12, day of
  that month, hour below 24, minute and second below 60: decoding the compact value
  month * 100 + day gives back the month and the day, and \<open>createTimestamp\<close>, applied to
  the identifier that \<open>formatIdentifier\<close> builds and to the time code
  hours * 10000 + minutes * 100 + seconds, returns a time value whose local year, month,
  day, hours, minutes and seconds are the components it was built from, provided the
  host's time zone shows that local time at some instant.  The timestamp is composed
  with the constructor for local time, so the proviso is needed; a zone with a fixed
  offset satisfies it for every local time.
\<close>

theorem date_encoding_roundtrip:
  assumes y: "1000 \<le> year" "year \<le> 9999"
    and m: "1 \<le> month" "month \<le> 12"
    and d: "1 \<le> day" "day \<le> DaysInMonth year month"
    and h: "0 \<le> hours" "hours < 24"
    and mi: "0 \<le> minutes" "minutes < 60"
    and s: "0 \<le> seconds" "seconds < 60"
    and zone: "valid_local_time tz
        (MakeDate (MakeDay year (month - 1) day) (MakeTime hours minutes seconds 0))"
  shows "parseCalendarDate (month * 100 + day) = (Some month, Some day)
    \<and> createTimestamp tz (formatIdentifier year (Some month) (Some day))
         (hours * 10000 + minutes * 100 + seconds) =
       Some (UTC tz (MakeDate (MakeDay year (month - 1) day) (MakeTime hours minutes seconds 0)))
    \<and> getFullYear tz
         (UTC tz (MakeDate (MakeDay year (month - 1) day) (MakeTime hours minutes seconds 0))) = year
    \<and> getMonth tz
         (UTC tz (MakeDate (MakeDay year (month - 1) day) (MakeTime hours minutes seconds 0))) + 1 = month
    \<and> getDate tz
         (UTC tz (MakeDate (MakeDay year (month - 1) day) (MakeTime hours minutes seconds 0))) = day
    \<and> getHours tz
         (UTC tz (MakeDate (MakeDay year (month - 1) day) (MakeTime hours minutes seconds 0))) = hours
    \<and> getMinutes tz
         (UTC tz (MakeDate (MakeDay year (month - 1) day) (MakeTime hours minutes seconds 0))) = minutes
    \<and> getSeconds tz
         (UTC tz (MakeDate (MakeDay year (month - 1) day) (MakeTime hours minutes seconds 0))) = seconds
    \<and> (\<forall>c v. \<bar>c\<bar> \<le> msPerDay \<longrightarrow> valid_local_time (fixed_offset c) v)"
proof -
  define wt where "wt = MakeDate (MakeDay year (month - 1) day) (MakeTime hours minutes seconds 0)"
  have d31: "day < 100" using d(2) DaysInMonth_le_31 [of year month] by simp
  have tod: "0 \<le> MakeTime hours minutes seconds 0" "MakeTime hours minutes seconds 0 < msPerDay"
    using time_components(1,2) [OF h mi s] by simp_all
  have decode: "parseCalendarDate (month * 100 + day) = (Some month, Some day)"
    using m d(1) d31 by (intro parseCalendarDate_decode) simp_all
  have "createTimestamp tz (formatIdentifier year (Some month) (Some day))
         (hours * 10000 + minutes * 100 + seconds) =
        new_Date tz (Some year) (Some (month - 1)) (Some day) (Some hours) (Some minutes) (Some seconds)"
    using formatIdentifier_digits [of year month day]
      createTimestamp_digits [of year month day hours minutes seconds tz] y m d(1) d31 h mi s
    by simp
  also have "\<dots> = TimeClip (UTC tz wt)"
    unfolding wt_def using y(1) by (intro new_Date_Some) simp
  also have "\<dots> = Some (UTC tz wt)"
  proof -
    have "\<bar>wt\<bar> \<le> 253402300800000"
      unfolding wt_def by (rule local_time_range [OF y m d tod])
    moreover have "\<bar>offset_at_local tz wt\<bar> \<le> msPerDay"
      using zone by (simp add: valid_local_time_def wt_def)
    ultimately have "\<bar>UTC tz wt\<bar> \<le> 8640000000000000"
      by (simp add: UTC_def msPerDay_def)
    then show ?thesis by (simp add: TimeClip_def)
  qed
  finally have stamp: "createTimestamp tz (formatIdentifier year (Some month) (Some day))
         (hours * 10000 + minutes * 100 + seconds) = Some (UTC tz wt)" .
  have local: "LocalTime tz (UTC tz wt) = wt"
    using zone by (intro LocalTime_UTC) (simp add: wt_def)
  have cal: "YearFromTime wt = year" "MonthFromTime wt = month - 1" "DateFromTime wt = day"
    unfolding wt_def using calendar_roundtrip(1-3) [OF m d tod] by simp_all
  have clock: "HourFromTime wt = hours" "MinFromTime wt = minutes" "SecFromTime wt = seconds"
    unfolding wt_def using time_components(3-5) [OF h mi s] by simp_all
  show ?thesis
    unfolding wt_def [symmetric]
    by (simp add: decode stamp getFullYear_def getMonth_def getDate_def getHours_def
        getMinutes_def getSeconds_def local cal clock valid_local_time_fixed_offset)
qed

theorem date_encoding_roundtrip_witness:
  "parseCalendarDate (1 * 100 + 15) = (Some 1, Some 15)
   \<and> createTimestamp (fixed_offset 3600000) (formatIdentifier 2024 (Some 1) (Some 15))
        (12 * 10000 + 34 * 100 + 56) =
      Some (UTC (fixed_offset 3600000) (MakeDate (MakeDay 2024 (1 - 1) 15) (MakeTime 12 34 56 0)))
   \<and> getFullYear (fixed_offset 3600000)
        (UTC (fixed_offset 3600000) (MakeDate (MakeDay 2024 (1 - 1) 15) (MakeTime 12 34 56 0))) = 2024
   \<and> getHours (fixed_offset 3600000)
        (UTC (fixed_offset 3600000) (MakeDate (MakeDay 2024 (1 - 1) 15) (MakeTime 12 34 56 0))) = 12"
proof -
  have zone: "valid_local_time (fixed_offset 3600000)
      (MakeDate (MakeDay 2024 (1 - 1) 15) (MakeTime 12 34 56 0))"
    by (rule valid_local_time_fixed_offset) (simp add: msPerDay_def)
  have day: "(15::int) \<le> DaysInMonth 2024 1" by (simp add: DaysInMonth_def)
  show ?thesis
    using date_encoding_roundtrip [of 2024 1 15 12 34 56 "fixed_offset 3600000", OF _ _ _ _ _ day _ _ _ _ _ _ zone]
    by simp
qed

text \<open>
  In a zone whose clocks go from 02:00 to 03:00 at 2023-03-26T01:00:00Z (offset one hour
  before, two hours after) the local time 02:30:00 of that day does not exist.  The
  timestamp composed for 20230326 and time code 023000 is 01:30:00Z, which the zone shows
  as 03:30: the hours read back are 3, not 2.
\<close>

theorem date_encoding_roundtrip_counterexample:
  "createTimestamp (one_transition 1679792400000 3600000 7200000)
     (formatIdentifier 2023 (Some 3) (Some 26)) (2 * 10000 + 30 * 100 + 0) = Some 1679794200000
   \<and> getHours (one_transition 1679792400000 3600000 7200000) 1679794200000 = 3"
proof -
  let ?tz = "one_transition 1679792400000 3600000 7200000"
  have a: "MakeDate (MakeDay 2023 2 26) (MakeTime 2 30 0 0) = 1679797800000"
    by (simp add: MakeDate_def MakeDay_def MakeTime_def DayFromYear_def DaysInYear_def
      MonthStart_def msPerDay_def msPerHour_def msPerMinute_def msPerSecond_def)
  have b: "UTC ?tz 1679797800000 = 1679794200000"
    by (simp add: UTC_def one_transition_def)
  have c: "TimeClip 1679794200000 = Some 1679794200000"
    by (simp add: TimeClip_def)
  have "new_Date ?tz (Some 2023) (Some 2) (Some 26) (Some 2) (Some 30) (Some 0) =
     TimeClip (UTC ?tz (MakeDate (MakeDay 2023 2 26) (MakeTime 2 30 0 0)))"
    by (rule new_Date_Some) simp
  then have d: "new_Date ?tz (Some 2023) (Some 2) (Some 26) (Some 2) (Some 30) (Some 0) =
      Some 1679794200000"
    by (simp only: a b c)
  have stamp: "createTimestamp ?tz (formatIdentifier 2023 (Some 3) (Some 26))
      (2 * 10000 + 30 * 100 + 0) = Some 1679794200000"
    using createTimestamp_digits [of 2023 3 26 2 30 0 ?tz] formatIdentifier_digits [of 2023 3 26] d
    by simp
  have hours: "getHours ?tz 1679794200000 = 3"
    by (simp add: getHours_def LocalTime_def HourFromTime_def one_transition_def msPerHour_def)
  from stamp hours show ?thesis by (rule conjI)
qed

text \<open>
  The identifier has eight characters only for a year of four digits, which is why the
  years above are those from 1000 to 9999.  For the year 999, the first month and the
  15th day it is \<open>9990115\<close>, and \<open>createTimestamp\<close> cuts it into 9990, 11 and 5.
\<close>

lemma short_year_identifier:
  "formatIdentifier 999 (Some 1) (Some 15) = ''9990115''
   \<and> split_date ''9990115'' = (''9990'', ''11'', ''5'')
   \<and> createTimestamp (fixed_offset 0) ''9990115'' 0 =
       new_Date (fixed_offset 0) (Some 9990) (Some 10) (Some 5) (Some 0) (Some 0) (Some 0)"
  by code_simp

section \<open>Properties of the recommendation\<close>













section \<open>Properties of the analysis run\<close>

lemma analyze_nonempty:
  assumes "captures \<noteq> []"
  shows "analyzeWebsiteHistory env siteUrl thr captures =
    Inr \<lparr> result_url = siteUrl,
          firstCapture = timestamp (hd captures),
          lastCapture = timestamp (last captures),
          totalCaptures = length captures,
          result_similarSince = similarSince (detect (walkNow env) thr
            (map (analyzeCapture env (fetchContent env (currentPage env))) (enumerate 0 captures))),
          similarityScore = averageSimilarity
            (map (analyzeCapture env (fetchContent env (currentPage env))) (enumerate 0 captures)),
          result_significantChanges = significantChanges (detect (walkNow env) thr
            (map (analyzeCapture env (fetchContent env (currentPage env))) (enumerate 0 captures))),
          recommendUpdate = shouldRecommendUpdate (timeZone env) (recommendNow env)
            (similarSince (detect (walkNow env) thr
              (map (analyzeCapture env (fetchContent env (currentPage env))) (enumerate 0 captures))))
            (averageSimilarity
              (map (analyzeCapture env (fetchContent env (currentPage env))) (enumerate 0 captures))) \<rparr>"
proof -
  from assms have first: "array_get captures 0 = Some (hd captures)"
    by (cases captures) (simp_all add: array_get_def)
  from assms have "nat (int (length captures) - 1) = length captures - 1" by simp
  with assms have final: "array_get captures (int (length captures) - 1) = Some (last captures)"
    by (simp add: array_get_def last_conv_nth)
  show ?thesis
    unfolding analyzeWebsiteHistory_def Let_def first final by (simp add: read_timestamp_def)
qed

text \<open>
  C1 (as the code behaves).  When the capture list is empty the run fails: the walk and
  the scoring do nothing, \<open>captures[0]\<close> is read out of range and is \<open>undefined\<close>, and
  reading its \<open>timestamp\<close> throws a TypeError, which is what the caller receives.  There
  is no check of the list and no error of another kind.
\<close>

theorem empty_captures_type_error:
  "array_get ([] :: Snapshot list) 0 = None
   \<and> analyzeWebsiteHistory env siteUrl thr [] =
       Inl (TypeError ''Cannot read properties of undefined (reading timestamp)'')"
  by (simp add: analyzeWebsiteHistory_def array_get_def read_timestamp_def)

text \<open>At an empty capture list the error is the TypeError of the out-of-range read.\<close>

theorem empty_captures_counterexample:
  "analyzeWebsiteHistory
     \<lparr> currentPage = Inr ''<html>page</html>'', snapshotPage = (\<lambda>i. Inr []), cleanHtml = (\<lambda>s. s),
       compareTwoStrings = (\<lambda>a b. 1), walkNow = 1700000000000, recommendNow = 1700000000000,
       timeZone = fixed_offset 0 \<rparr>
     ''https://example.com'' 0.85 []
   = Inl (TypeError ''Cannot read properties of undefined (reading timestamp)'')"
  by (simp add: analyzeWebsiteHistory_def array_get_def read_timestamp_def)

lemma fetchText_exhausted:
  assumes "\<forall>i<retryAttempts (config f). \<not> succeeds (envs i)"
  shows "fst (fetchText f u envs clock) =
    Inl (exhausted_error (config f) u (last_cause envs None [0..<retryAttempts (config f)]))"
proof -
  have "fst (fetch_loop (config f) u envs 0 None (requestTimestamps f, clock)) =
      Inl (exhausted_error (config f) u (last_cause envs None [0..<retryAttempts (config f)]))"
    using assms fetch_loop_always_fails [of 0 "config f" envs u None "(requestTimestamps f, clock)"]
    by simp
  then have "fst (fetch f u envs clock) =
      Inl (exhausted_error (config f) u (last_cause envs None [0..<retryAttempts (config f)]))"
    by (simp add: fetch_fst)
  moreover have "fst (fetchText f u envs clock) = map_sum id bodyText (fst (fetch f u envs clock))"
    by (simp add: fetchText_def split: prod.splits)
  ultimately show ?thesis by simp
qed

text \<open>
  C2 (as the code behaves).  When every attempt of the fetch of the live page fails,
  \<open>fetchText\<close> throws.  \<open>fetchContent\<close> catches the error and returns the empty string,
  and the run goes on with the empty string as the content of the current page: its
  outcome is that of a run whose live page was fetched and cleaned to the empty string,
  and with a capture list that is not empty it returns a result.
\<close>

theorem current_page_failure_continues:
  "((\<forall>i<retryAttempts (config f). \<not> succeeds (envs i)) \<longrightarrow>
      (\<exists>err. fst (fetchText f siteUrl envs clock) = Inl err))
   \<and> (currentPage env = Inl e \<longrightarrow>
     fetchContent env (currentPage env) = []
     \<and> (cleanHtml env html = [] \<longrightarrow>
          analyzeWebsiteHistory env siteUrl thr captures =
          analyzeWebsiteHistory (env\<lparr> currentPage := Inr html \<rparr>) siteUrl thr captures)
     \<and> (captures \<noteq> [] \<longrightarrow> (\<exists>r. analyzeWebsiteHistory env siteUrl thr captures = Inr r)))"
proof (intro impI conjI)
  assume "\<forall>i<retryAttempts (config f). \<not> succeeds (envs i)"
  then show "\<exists>err. fst (fetchText f siteUrl envs clock) = Inl err"
    using fetchText_exhausted by blast
next
  assume fail: "currentPage env = Inl e"
  then show empty: "fetchContent env (currentPage env) = []" by (simp add: fetchContent_def)
  show "analyzeWebsiteHistory env siteUrl thr captures =
          analyzeWebsiteHistory (env\<lparr> currentPage := Inr html \<rparr>) siteUrl thr captures"
    if "cleanHtml env html = []"
  proof -
    have "analyzeCapture (env\<lparr> currentPage := Inr html \<rparr>) = analyzeCapture env"
      by (simp add: analyzeCapture_def fetchContent_def fun_eq_iff Let_def split: sum.splits)
    moreover have "fetchContent (env\<lparr> currentPage := Inr html \<rparr>)
        (currentPage (env\<lparr> currentPage := Inr html \<rparr>)) = []"
      using that by (simp add: fetchContent_def)
    ultimately show ?thesis
      unfolding analyzeWebsiteHistory_def Let_def by (simp add: empty split: sum.splits)
  qed
  show "\<exists>r. analyzeWebsiteHistory env siteUrl thr captures = Inr r" if "captures \<noteq> []"
    using analyze_nonempty [OF that] by blast
qed

theorem current_page_failure_continues_witness:
  "\<exists>r. analyzeWebsiteHistory
     \<lparr> currentPage = Inl (Error ''HTTP error! status: 503''), snapshotPage = (\<lambda>i. Inr ''old''),
       cleanHtml = (\<lambda>s. s), compareTwoStrings = (\<lambda>a b. if a = b then 1 else 0),
       walkNow = 1700000000000, recommendNow = 1700000000000, timeZone = fixed_offset 0 \<rparr>
     ''https://example.com'' 0.85
     [\<lparr> timestamp = 1600000000000, url = ''https://web.archive.org/web/x'', content = None,
        similarity = None \<rparr>] = Inr r"
proof -
  let ?env = "\<lparr> currentPage = Inl (Error ''HTTP error! status: 503''), snapshotPage = (\<lambda>i. Inr ''old''),
       cleanHtml = (\<lambda>s. s), compareTwoStrings = (\<lambda>a b. if a = b then 1 else 0),
       walkNow = 1700000000000, recommendNow = 1700000000000, timeZone = fixed_offset 0 \<rparr>"
  let ?captures = "[\<lparr> timestamp = 1600000000000, url = ''https://web.archive.org/web/x'',
       content = None, similarity = None \<rparr>]"
  have fail: "currentPage ?env = Inl (Error ''HTTP error! status: 503'')" by simp
  have ne: "?captures \<noteq> []" by simp
  from current_page_failure_continues [where env = ?env and e = "Error ''HTTP error! status: 503''"
      and html = "[]" and siteUrl = "''https://example.com''" and thr = "0.85"
      and captures = ?captures] fail ne
  show ?thesis by blast
qed

text \<open>A run whose live fetch failed returns a result: one capture, scored against the
  empty string.\<close>

theorem current_page_failure_counterexample:
  "analyzeWebsiteHistory
     \<lparr> currentPage = Inl (Error ''HTTP error! status: 503''), snapshotPage = (\<lambda>i. Inr ''old''),
       cleanHtml = (\<lambda>s. s), compareTwoStrings = (\<lambda>a b. if a = b then 1 else 0),
       walkNow = 1700000000000, recommendNow = 1700000000000, timeZone = fixed_offset 0 \<rparr>
     ''https://example.com'' 0.85
     [\<lparr> timestamp = 1600000000000, url = ''https://web.archive.org/web/x'', content = None,
        similarity = None \<rparr>]
   = Inr \<lparr> result_url = ''https://example.com'', firstCapture = 1600000000000,
          lastCapture = 1600000000000, totalCaptures = 1, result_similarSince = None,
          similarityScore = 0, result_significantChanges = [], recommendUpdate = False \<rparr>"
  by (simp add: analyzeWebsiteHistory_def array_get_def read_timestamp_def fetchContent_def
      analyzeCapture_def enumerate_eq_zip detect_def walk_init_def walk_step_def
      averageSimilarity_def shouldRecommendUpdate_def fadd_def fdiv_def double_of_def)

end
